theory Spec2Isabelle
  imports Main
begin

section \<open>JavaScript strings\<close>

text \<open>
  A JavaScript string is modelled as a \<^typ>\<open>string\<close>: one \<^typ>\<open>char\<close> per code unit, for
  code units below 256. The character classes below are the classes of the source's
  regular expressions on that range.
\<close>

definition NL :: char where
  "NL = CHR 0x0A"

definition TAB :: char where
  "TAB = CHR 0x09"

text \<open>\<open>\s\<close>, which is also what \<open>String.prototype.trim\<close> removes.\<close>

definition is_space :: "char \<Rightarrow> bool" where
  "is_space c = (c = CHR '' '' \<or> c = CHR 0x0A \<or> c = CHR 0x09 \<or> c = CHR 0x0D
                 \<or> c = CHR 0x0B \<or> c = CHR 0x0C \<or> c = CHR 0xA0)"

text \<open>\<open>.\<close> matches everything but a line terminator.\<close>

definition is_dot :: "char \<Rightarrow> bool" where
  "is_dot c = (c \<noteq> CHR 0x0A \<and> c \<noteq> CHR 0x0D)"

definition is_lower :: "char \<Rightarrow> bool" where
  "is_lower c = (c \<in> set ''abcdefghijklmnopqrstuvwxyz'')"

definition is_upper :: "char \<Rightarrow> bool" where
  "is_upper c = (c \<in> set ''ABCDEFGHIJKLMNOPQRSTUVWXYZ'')"

definition is_digit :: "char \<Rightarrow> bool" where
  "is_digit c = (c \<in> set ''0123456789'')"

text \<open>\<open>[a-zA-Z]\<close>\<close>

definition is_alpha :: "char \<Rightarrow> bool" where
  "is_alpha c = (is_lower c \<or> is_upper c)"

text \<open>\<open>[a-zA-Z0-9]\<close>\<close>

definition is_alnum :: "char \<Rightarrow> bool" where
  "is_alnum c = (is_alpha c \<or> is_digit c)"

text \<open>\<open>[\w\-]\<close>\<close>

definition is_word_dash :: "char \<Rightarrow> bool" where
  "is_word_dash c = (is_alnum c \<or> c = CHR ''_'' \<or> c = CHR ''-'')"

text \<open>\<open>[a-zA-Z\-]\<close>\<close>

definition is_alpha_dash :: "char \<Rightarrow> bool" where
  "is_alpha_dash c = (is_alpha c \<or> c = CHR ''-'')"

text \<open>\<open>[a-zA-Z0-9-]\<close>\<close>

definition is_alnum_dash :: "char \<Rightarrow> bool" where
  "is_alnum_dash c = (is_alnum c \<or> c = CHR ''-'')"

text \<open>\<open>['"]\<close> and \<open>[^'"]\<close>\<close>

definition is_quote :: "char \<Rightarrow> bool" where
  "is_quote c = (c = CHR 0x22 \<or> c = CHR 0x27)"

definition not_quote :: "char \<Rightarrow> bool" where
  "not_quote c = (\<not> is_quote c)"

text \<open>\<open>[^>]\<close> and \<open>[^<>]\<close>\<close>

definition not_gt :: "char \<Rightarrow> bool" where
  "not_gt c = (c \<noteq> CHR ''>'')"

definition not_angle :: "char \<Rightarrow> bool" where
  "not_angle c = (c \<noteq> CHR ''<'' \<and> c \<noteq> CHR ''>'')"

text \<open>\<open>[{%]\<close> and \<open>[^\{\{%]\<close>\<close>

definition is_brace_pct :: "char \<Rightarrow> bool" where
  "is_brace_pct c = (c = CHR ''{'' \<or> c = CHR ''%'')"

definition not_brace_pct :: "char \<Rightarrow> bool" where
  "not_brace_pct c = (\<not> is_brace_pct c)"

text \<open>The two forms of a letter under the \<open>i\<close> flag.\<close>

fun upcase_of :: "string \<Rightarrow> string \<Rightarrow> char \<Rightarrow> char" where
  "upcase_of [] us c = c"
| "upcase_of (l # ls) [] c = c"
| "upcase_of (l # ls) (u # us) c = (if c = l then u else upcase_of ls us c)"

definition to_upper :: "char \<Rightarrow> char" where
  "to_upper c = upcase_of ''abcdefghijklmnopqrstuvwxyz'' ''ABCDEFGHIJKLMNOPQRSTUVWXYZ'' c"

definition eq_nocase :: "char \<Rightarrow> char \<Rightarrow> bool" where
  "eq_nocase a b = (a = b \<or> to_upper a = to_upper b)"

fun prefix_nocase :: "string \<Rightarrow> string \<Rightarrow> bool" where
  "prefix_nocase [] s = True"
| "prefix_nocase (w # ws) [] = False"
| "prefix_nocase (w # ws) (x # xs) = (eq_nocase w x \<and> prefix_nocase ws xs)"

text \<open>\<open>String.prototype.startsWith\<close>\<close>

fun starts_with :: "string \<Rightarrow> string \<Rightarrow> bool" where
  "starts_with [] s = True"
| "starts_with (w # ws) [] = False"
| "starts_with (w # ws) (x # xs) = (w = x \<and> starts_with ws xs)"

text \<open>\<open>String.prototype.includes\<close>\<close>

fun includes_str :: "string \<Rightarrow> string \<Rightarrow> bool" where
  "includes_str w [] = (w = [])"
| "includes_str w (x # xs) = (starts_with w (x # xs) \<or> includes_str w xs)"

text \<open>\<open>String.prototype.endsWith\<close>\<close>

definition ends_with :: "string \<Rightarrow> string \<Rightarrow> bool" where
  "ends_with w s = starts_with (rev w) (rev s)"

text \<open>\<open>String.prototype.trim\<close>\<close>

definition trim :: "string \<Rightarrow> string" where
  "trim s = rev (dropWhile is_space (rev (dropWhile is_space s)))"

text \<open>\<open>text.split('\n')\<close>: an empty text is one empty line.\<close>

fun split_nl :: "string \<Rightarrow> string list" where
  "split_nl [] = [[]]"
| "split_nl (c # cs) =
     (if c = NL then [] # split_nl cs
      else (case split_nl cs of [] \<Rightarrow> [[c]] | l # ls \<Rightarrow> (c # l) # ls))"

text \<open>\<open>Array.prototype.join\<close>\<close>

fun join :: "string \<Rightarrow> string list \<Rightarrow> string" where
  "join sep [] = []"
| "join sep [l] = l"
| "join sep (l # m # ls) = l @ sep @ join sep (m # ls)"

text \<open>
  \<open>s.split(sep).length\<close>: the number of pieces that the separator cuts the string
  into, scanning left to right without overlap. An empty separator cuts between all
  code units.
\<close>

fun split_pieces :: "string \<Rightarrow> string \<Rightarrow> nat" where
  "split_pieces sep [] = 1"
| "split_pieces sep (x # xs) =
     (if starts_with sep (x # xs)
      then Suc (split_pieces sep (drop (length sep - 1) xs))
      else split_pieces sep xs)"

definition split_length :: "string \<Rightarrow> string \<Rightarrow> nat" where
  "split_length sep s = (if sep = [] then length s else split_pieces sep s)"

text \<open>\<open>(s.match(/c/g) || []).length\<close> for a single character \<open>c\<close>\<close>

definition count_char :: "char \<Rightarrow> string \<Rightarrow> nat" where
  "count_char c s = length (filter (\<lambda>x. x = c) s)"

section \<open>Regular expressions\<close>

text \<open>
  The fragment of JavaScript regular expressions that the formatter uses, with the
  backtracking order of the language: alternatives left to right, greedy quantifiers
  longest first, lazy ones shortest first. Every quantified item of the source is a
  character class, so the quantifiers range over classes. A start anchor \<open>^\<close> only
  occurs as the first item of an expression and is modelled by matching at index 0
  only (\<open>exec_start\<close>).
\<close>

datatype rx =
    Lit string
  | LitI string
  | Cls "char \<Rightarrow> bool"
  | Seq rx rx
  | Alt rx rx
  | Opt rx
  | Star "char \<Rightarrow> bool"
  | StarLazy "char \<Rightarrow> bool"
  | Grp nat rx
  | Ref nat
  | Eol

type_synonym caps = "(nat \<times> string) list"

fun star_greedy :: "(char \<Rightarrow> bool) \<Rightarrow> string \<Rightarrow> (string \<Rightarrow> 'a option) \<Rightarrow> 'a option" where
  "star_greedy P [] k = k []"
| "star_greedy P (x # xs) k =
     (if P x then (case star_greedy P xs k of Some r \<Rightarrow> Some r | None \<Rightarrow> k (x # xs))
      else k (x # xs))"

fun star_lazy :: "(char \<Rightarrow> bool) \<Rightarrow> string \<Rightarrow> (string \<Rightarrow> 'a option) \<Rightarrow> 'a option" where
  "star_lazy P [] k = k []"
| "star_lazy P (x # xs) k =
     (case k (x # xs) of Some r \<Rightarrow> Some r
      | None \<Rightarrow> if P x then star_lazy P xs k else None)"

text \<open>
  \<open>bt r s c k\<close> matches \<open>r\<close> at the start of \<open>s\<close> with the captures \<open>c\<close> so far and hands
  the rest of the input to the continuation \<open>k\<close>; \<open>None\<close> makes it backtrack.
\<close>

fun bt :: "rx \<Rightarrow> string \<Rightarrow> caps \<Rightarrow> (string \<Rightarrow> caps \<Rightarrow> 'a option) \<Rightarrow> 'a option" where
  "bt (Lit w) s c k = (if starts_with w s then k (drop (length w) s) c else None)"
| "bt (LitI w) s c k = (if prefix_nocase w s then k (drop (length w) s) c else None)"
| "bt (Cls P) s c k = (case s of [] \<Rightarrow> None | x # xs \<Rightarrow> if P x then k xs c else None)"
| "bt (Seq r1 r2) s c k = bt r1 s c (\<lambda>s' c'. bt r2 s' c' k)"
| "bt (Alt r1 r2) s c k = (case bt r1 s c k of Some r \<Rightarrow> Some r | None \<Rightarrow> bt r2 s c k)"
| "bt (Opt r) s c k = (case bt r s c k of Some r \<Rightarrow> Some r | None \<Rightarrow> k s c)"
| "bt (Star P) s c k = star_greedy P s (\<lambda>s'. k s' c)"
| "bt (StarLazy P) s c k = star_lazy P s (\<lambda>s'. k s' c)"
| "bt (Grp n r) s c k = bt r s c (\<lambda>s' c'. k s' ((n, take (length s - length s') s) # c'))"
| "bt (Ref n) s c k =
     (case map_of c n of None \<Rightarrow> k s c
      | Some w \<Rightarrow> if starts_with w s then k (drop (length w) s) c else None)"
| "bt Eol s c k = (if s = [] then k s c else None)"

text \<open>\<open>r+\<close>, \<open>r+?\<close> and \<open>r{2,}\<close> over a class\<close>

definition Plus :: "(char \<Rightarrow> bool) \<Rightarrow> rx" where
  "Plus P = Seq (Cls P) (Star P)"

definition PlusLazy :: "(char \<Rightarrow> bool) \<Rightarrow> rx" where
  "PlusLazy P = Seq (Cls P) (StarLazy P)"

definition AtLeast2 :: "(char \<Rightarrow> bool) \<Rightarrow> rx" where
  "AtLeast2 P = Seq (Cls P) (Seq (Cls P) (Star P))"

fun seqs :: "rx list \<Rightarrow> rx" where
  "seqs [] = Lit []"
| "seqs [r] = r"
| "seqs (r # rs) = Seq r (seqs rs)"

fun alts :: "string list \<Rightarrow> rx" where
  "alts [] = Cls (\<lambda>c. False)"
| "alts [w] = Lit w"
| "alts (w # ws) = Alt (Lit w) (alts ws)"

fun altsI :: "string list \<Rightarrow> rx" where
  "altsI [] = Cls (\<lambda>c. False)"
| "altsI [w] = LitI w"
| "altsI (w # ws) = Alt (LitI w) (altsI ws)"

text \<open>
  A match: the index where it starts, its length and its captures.
\<close>

record rmatch =
  m_index :: nat
  m_len :: nat
  m_caps :: caps

definition match_here :: "rx \<Rightarrow> nat \<Rightarrow> string \<Rightarrow> rmatch option" where
  "match_here r i s =
     bt r s [] (\<lambda>s' c. Some \<lparr>m_index = i, m_len = length s - length s', m_caps = c\<rparr>)"

text \<open>The leftmost match in \<open>s\<close>, where \<open>s\<close> starts at index \<open>i\<close> of the subject.\<close>

fun exec_from :: "rx \<Rightarrow> nat \<Rightarrow> string \<Rightarrow> rmatch option" where
  "exec_from r i [] = match_here r i []"
| "exec_from r i (x # xs) =
     (case match_here r i (x # xs) of Some m \<Rightarrow> Some m | None \<Rightarrow> exec_from r (Suc i) xs)"

definition exec :: "rx \<Rightarrow> string \<Rightarrow> rmatch option" where
  "exec r s = exec_from r 0 s"

text \<open>An expression that begins with \<open>^\<close> matches at index 0 only.\<close>

definition exec_start :: "rx \<Rightarrow> string \<Rightarrow> rmatch option" where
  "exec_start r s = match_here r 0 s"

definition test :: "rx \<Rightarrow> string \<Rightarrow> bool" where
  "test r s = (exec r s \<noteq> None)"

definition test_start :: "rx \<Rightarrow> string \<Rightarrow> bool" where
  "test_start r s = (exec_start r s \<noteq> None)"

text \<open>Capture \<open>n\<close> of a match; a group that took no part is the empty string here.\<close>

definition cap :: "rmatch \<Rightarrow> nat \<Rightarrow> string" where
  "cap m n = (case map_of (m_caps m) n of None \<Rightarrow> [] | Some w \<Rightarrow> w)"

definition matched :: "rmatch \<Rightarrow> string \<Rightarrow> string" where
  "matched m s = take (m_len m) (drop (m_index m) s)"

subsection \<open>Matches consume what they match\<close>

text \<open>A lower bound on the length of a match, read off the expression.\<close>

fun min_len :: "rx \<Rightarrow> nat" where
  "min_len (Lit w) = length w"
| "min_len (LitI w) = length w"
| "min_len (Cls P) = 1"
| "min_len (Seq r1 r2) = min_len r1 + min_len r2"
| "min_len (Alt r1 r2) = min (min_len r1) (min_len r2)"
| "min_len (Opt r) = 0"
| "min_len (Star P) = 0"
| "min_len (StarLazy P) = 0"
| "min_len (Grp n r) = min_len r"
| "min_len (Ref n) = 0"
| "min_len Eol = 0"

lemma star_greedy_result:
  "star_greedy P s k = Some x \<Longrightarrow> \<exists>s'. k s' = Some x \<and> length s' \<le> length s"
proof (induction s)
  case Nil
  then show ?case by auto
next
  case (Cons a s)
  show ?case
  proof (cases "P a")
    case False
    with Cons.prems show ?thesis by auto
  next
    case True
    show ?thesis
    proof (cases "star_greedy P s k")
      case None
      with True Cons.prems show ?thesis by auto
    next
      case (Some y)
      with True Cons.prems have "star_greedy P s k = Some x" by simp
      from Cons.IH [OF this] show ?thesis by auto
    qed
  qed
qed

lemma star_lazy_result:
  "star_lazy P s k = Some x \<Longrightarrow> \<exists>s'. k s' = Some x \<and> length s' \<le> length s"
proof (induction s)
  case Nil
  then show ?case by auto
next
  case (Cons a s)
  show ?case
  proof (cases "k (a # s)")
    case (Some y)
    with Cons.prems show ?thesis by auto
  next
    case None
    with Cons.prems have "P a" and "star_lazy P s k = Some x"
      by (auto split: if_splits)
    from Cons.IH [OF this(2)] show ?thesis by auto
  qed
qed

lemma starts_with_length: "starts_with w s \<Longrightarrow> length w \<le> length s"
  by (induction w s rule: starts_with.induct) auto

lemma prefix_nocase_length: "prefix_nocase w s \<Longrightarrow> length w \<le> length s"
  by (induction w s rule: prefix_nocase.induct) auto

lemma bt_result:
  "bt r s c k = Some x \<Longrightarrow> \<exists>s' c'. k s' c' = Some x \<and> length s' + min_len r \<le> length s"
proof (induction r arbitrary: s c k)
  case (Lit w)
  then show ?case
    by (auto split: if_splits dest: starts_with_length intro!: exI)
next
  case (LitI w)
  then show ?case
    by (auto split: if_splits dest: prefix_nocase_length intro!: exI)
next
  case (Cls P)
  then show ?case
    by (auto split: list.splits if_splits intro!: exI)
next
  case (Seq r1 r2)
  from Seq.prems have "bt r1 s c (\<lambda>s' c'. bt r2 s' c' k) = Some x" by simp
  from Seq.IH(1) [OF this] obtain s1 c1
    where a: "bt r2 s1 c1 k = Some x" and b: "length s1 + min_len r1 \<le> length s" by blast
  from Seq.IH(2) [OF a] obtain s2 c2
    where "k s2 c2 = Some x" and "length s2 + min_len r2 \<le> length s1" by blast
  with b show ?case by (intro exI [of _ s2] exI [of _ c2]) simp
next
  case (Alt r1 r2)
  show ?case
  proof (cases "bt r1 s c k")
    case None
    with Alt.prems have "bt r2 s c k = Some x" by simp
    from Alt.IH(2) [OF this] show ?thesis by fastforce
  next
    case (Some y)
    with Alt.prems have "bt r1 s c k = Some x" by simp
    from Alt.IH(1) [OF this] show ?thesis by fastforce
  qed
next
  case (Opt r)
  show ?case
  proof (cases "bt r s c k")
    case None
    with Opt.prems show ?thesis by auto
  next
    case (Some y)
    with Opt.prems have "bt r s c k = Some x" by simp
    from Opt.IH [OF this] show ?thesis by fastforce
  qed
next
  case (Star P)
  from Star.prems have "star_greedy P s (\<lambda>s'. k s' c) = Some x" by simp
  from star_greedy_result [OF this] obtain s' where "k s' c = Some x" and "length s' \<le> length s"
    by blast
  then show ?case by (intro exI [of _ s'] exI [of _ c]) simp
next
  case (StarLazy P)
  from StarLazy.prems have "star_lazy P s (\<lambda>s'. k s' c) = Some x" by simp
  from star_lazy_result [OF this] obtain s' where "k s' c = Some x" and "length s' \<le> length s"
    by blast
  then show ?case by (intro exI [of _ s'] exI [of _ c]) simp
next
  case (Grp n r)
  from Grp.prems
  have "bt r s c (\<lambda>s' c'. k s' ((n, take (length s - length s') s) # c')) = Some x" by simp
  from Grp.IH [OF this] show ?case by fastforce
next
  case (Ref n)
  then show ?case
    by (auto split: option.splits if_splits dest: starts_with_length intro!: exI)
next
  case Eol
  then show ?case by (auto split: if_splits)
qed

lemma match_here_bound:
  assumes "match_here r i s = Some m"
  shows "m_index m = i \<and> min_len r \<le> m_len m \<and> m_len m \<le> length s"
proof -
  from assms have "bt r s []
      (\<lambda>s' c. Some \<lparr>m_index = i, m_len = length s - length s', m_caps = c\<rparr>) = Some m"
    by (simp add: match_here_def)
  from bt_result [OF this] show ?thesis
    by (elim exE conjE) auto
qed

lemma exec_from_bound:
  "exec_from r i s = Some m \<Longrightarrow>
     i \<le> m_index m \<and> min_len r \<le> m_len m \<and> m_index m + m_len m \<le> i + length s"
proof (induction s arbitrary: i)
  case Nil
  then show ?case by (auto dest: match_here_bound)
next
  case (Cons a s)
  show ?case
  proof (cases "match_here r i (a # s)")
    case (Some y)
    with Cons.prems have "match_here r i (a # s) = Some m" by simp
    from match_here_bound [OF this] show ?thesis by simp
  next
    case None
    with Cons.prems have "exec_from r (Suc i) s = Some m" by simp
    from Cons.IH [OF this] show ?thesis by simp
  qed
qed

subsection \<open>Replacing\<close>

text \<open>
  \<open>String.prototype.replace\<close> with an expression that has no \<open>g\<close> flag replaces the
  leftmost match. The replacement is computed from the match and the subject.
\<close>

definition splice :: "(rmatch \<Rightarrow> string \<Rightarrow> string) \<Rightarrow> string \<Rightarrow> rmatch option \<Rightarrow> string" where
  "splice f s mo =
     (case mo of None \<Rightarrow> s
      | Some m \<Rightarrow> take (m_index m) s @ f m s @ drop (m_index m + m_len m) s)"

definition replace_first :: "rx \<Rightarrow> (rmatch \<Rightarrow> string \<Rightarrow> string) \<Rightarrow> string \<Rightarrow> string" where
  "replace_first r f s = splice f s (exec r s)"

definition replace_start :: "rx \<Rightarrow> (rmatch \<Rightarrow> string \<Rightarrow> string) \<Rightarrow> string \<Rightarrow> string" where
  "replace_start r f s = splice f s (exec_start r s)"

text \<open>
  With the \<open>g\<close> flag every match is replaced, each search starting where the previous
  match ended; after an empty match the search moves on by one code unit.
\<close>

function replace_from :: "rx \<Rightarrow> (rmatch \<Rightarrow> string \<Rightarrow> string) \<Rightarrow> string \<Rightarrow> nat \<Rightarrow> string" where
  "replace_from r f s i =
     (case exec_from r i (drop i s) of None \<Rightarrow> drop i s
      | Some m \<Rightarrow>
          take (m_index m - i) (drop i s) @ f m s @
          (if m_len m = 0
           then (if m_index m < length s then s ! m_index m # replace_from r f s (Suc (m_index m))
                 else [])
           else replace_from r f s (m_index m + m_len m)))"
  by pat_completeness auto
termination
proof (relation "measure (\<lambda>(r, f, s, i). Suc (length s) - i)")
  show "wf (measure (\<lambda>(r, f, s, i). Suc (length s) - i))" by simp
next
  fix r :: rx and f :: "rmatch \<Rightarrow> string \<Rightarrow> string" and s i m
  assume "exec_from r i (drop i s) = Some m" and "m_len m = 0" and "m_index m < length s"
  then show "((r, f, s, Suc (m_index m)), (r, f, s, i))
      \<in> measure (\<lambda>(r, f, s, i). Suc (length s) - i)"
    by (auto dest!: exec_from_bound)
next
  fix r :: rx and f :: "rmatch \<Rightarrow> string \<Rightarrow> string" and s i m
  assume "exec_from r i (drop i s) = Some m" and "m_len m \<noteq> 0"
  then show "((r, f, s, m_index m + m_len m), (r, f, s, i))
      \<in> measure (\<lambda>(r, f, s, i). Suc (length s) - i)"
    by (auto dest!: exec_from_bound)
qed

declare replace_from.simps [simp del]

definition replace_all :: "rx \<Rightarrow> (rmatch \<Rightarrow> string \<Rightarrow> string) \<Rightarrow> string \<Rightarrow> string" where
  "replace_all r f s = replace_from r f s 0"

text \<open>
  A replacement given as a string is a template: \<open>$$\<close>, \<open>$&\<close>, \<open>$`\<close>, \<open>$'\<close> and
  \<open>$n\<close>, \<open>$nn\<close> for the captures \<open>1 .. n\<close> of the expression are substituted, anything
  else is copied.
\<close>

definition digit_val :: "char \<Rightarrow> nat option" where
  "digit_val c = map_of (zip ''0123456789'' [0, 1, 2, 3, 4, 5, 6, 7, 8, 9]) c"

definition subst_ref :: "nat \<Rightarrow> rmatch \<Rightarrow> nat \<Rightarrow> string \<Rightarrow> string" where
  "subst_ref n m ix ref = (if 1 \<le> ix \<and> ix \<le> n then cap m ix else ref)"

fun expand :: "nat \<Rightarrow> string \<Rightarrow> rmatch \<Rightarrow> string \<Rightarrow> string" where
  "expand n [] m s = []"
| "expand n [c] m s = [c]"
| "expand n (c # d # t) m s =
     (if c \<noteq> CHR ''$'' then c # expand n (d # t) m s
      else if d = CHR ''$'' then CHR ''$'' # expand n t m s
      else if d = CHR ''&'' then matched m s @ expand n t m s
      else if d = CHR 0x60 then take (m_index m) s @ expand n t m s
      else if d = CHR 0x27 then drop (m_index m + m_len m) s @ expand n t m s
      else (case digit_val d of
              None \<Rightarrow> c # expand n (d # t) m s
            | Some v1 \<Rightarrow>
                (case t of
                   [] \<Rightarrow> subst_ref n m v1 [c, d]
                 | e # t' \<Rightarrow>
                     (case digit_val e of
                        None \<Rightarrow> subst_ref n m v1 [c, d] @ expand n (e # t') m s
                      | Some v2 \<Rightarrow>
                          if 10 * v1 + v2 > n
                          then subst_ref n m v1 [c, d] @ expand n (e # t') m s
                          else subst_ref n m (10 * v1 + v2) [c, d, e] @ expand n t' m s))))"

section \<open>The attribute collapser\<close>

text \<open>\<open>/\s*\n\s*/g\<close>\<close>

definition rx_newline :: rx where
  "rx_newline = seqs [Star is_space, Lit [NL], Star is_space]"

text \<open>\<open>/\s{2,}/g\<close>\<close>

definition rx_spaces :: rx where
  "rx_spaces = AtLeast2 is_space"

text \<open>\<open>/({%|{{)/\<close>\<close>

definition rx_twig_open :: rx where
  "rx_twig_open = Grp 1 (Alt (Lit ''{%'') (Lit ''{{''))"

text \<open>\<open>/=\s*([\'"])(.*)\1/\<close>\<close>

definition rx_quoted_value :: rx where
  "rx_quoted_value =
     seqs [Lit ''='', Star is_space, Grp 1 (Cls is_quote), Grp 2 (Star is_dot), Ref 1]"

text \<open>\<open>/([^\{\{%]+?)\s*({[{%])/\<close>, in the attribute value behind a \<open>^\<close>\<close>

definition rx_before_twig :: rx where
  "rx_before_twig =
     seqs [Grp 1 (PlusLazy not_brace_pct), Star is_space,
           Grp 2 (Seq (Lit ''{'') (Cls is_brace_pct))]"

text \<open>\<open>/(%}|}})\s*$/\<close>\<close>

definition rx_after_twig :: rx where
  "rx_after_twig = seqs [Grp 1 (Alt (Lit ''%}'') (Lit ''}}'')), Star is_space, Eol]"

text \<open>\<open>/(%}|}})\s*([\'"])/g\<close>\<close>

definition rx_twig_then_quote :: rx where
  "rx_twig_then_quote =
     seqs [Grp 1 (Alt (Lit ''%}'') (Lit ''}}'')), Star is_space, Grp 2 (Cls is_quote)]"

text \<open>The callback \<open>(full, before, twig) => before.trim() + ' ' + twig\<close>\<close>

definition space_before :: "rmatch \<Rightarrow> string \<Rightarrow> string" where
  "space_before m s = trim (cap m 1) @ '' '' @ cap m 2"

text \<open>The callback \<open>(full, endTwig) => endTwig + ' '\<close>\<close>

definition space_after :: "rmatch \<Rightarrow> string \<Rightarrow> string" where
  "space_after m s = cap m 1 @ '' ''"

definition collapseTwigAttribute :: "string list \<Rightarrow> string" where
  "collapseTwigAttribute attributeLines =
     (let collapsed =
            replace_all rx_spaces (expand 0 '' '')
              (replace_all rx_newline (expand 0 '' '') (join '' '' attributeLines))
      in trim
          (if test rx_twig_open collapsed
           then (case exec rx_quoted_value collapsed of
                   Some m \<Rightarrow>
                     (let quote = cap m 1;
                          attrValue = cap m 2;
                          attrValue1 = replace_start rx_before_twig space_before attrValue;
                          attrValue2 = replace_first rx_after_twig space_after attrValue1;
                          attrValue3 = trim (replace_all rx_spaces (expand 0 '' '') attrValue2)
                      in replace_first rx_quoted_value
                           (expand 2 (''='' @ quote @ attrValue3 @ quote)) collapsed)
                 | None \<Rightarrow>
                     replace_all rx_spaces (expand 0 '' '')
                       (replace_all rx_twig_then_quote (expand 2 ''$1 $2'')
                          (replace_first rx_before_twig space_before collapsed)))
           else collapsed))"

section \<open>The tag splitter\<close>

text \<open>\<open>/(\{\%.*?\%\}|\{\{.*?\}\})/g\<close>\<close>

definition rx_twig_span :: rx where
  "rx_twig_span =
     Grp 1 (Alt (seqs [Lit ''{%'', StarLazy is_dot, Lit ''%}''])
                (seqs [Lit ''{{'', StarLazy is_dot, Lit ''}}'']))"

lemma min_len_twig_span: "min_len rx_twig_span = 4"
  by (simp add: rx_twig_span_def)

text \<open>The \<open>while\<close> loop of \<open>splitTwigLine\<close>, from \<open>lastIndex\<close> on, and the rest behind it.\<close>

function split_loop :: "string \<Rightarrow> nat \<Rightarrow> string list" where
  "split_loop line lastIndex =
     (case exec_from rx_twig_span lastIndex (drop lastIndex line) of
        None \<Rightarrow> (if lastIndex < length line then [drop lastIndex line] else [])
      | Some m \<Rightarrow>
          (if m_index m > lastIndex
           then [take (m_index m - lastIndex) (drop lastIndex line)] else []) @
          [matched m line] @
          split_loop line (m_index m + m_len m))"
  by pat_completeness auto
termination
proof (relation "measure (\<lambda>(line, lastIndex). Suc (length line) - lastIndex)")
  show "wf (measure (\<lambda>(line, lastIndex). Suc (length line) - lastIndex))" by simp
next
  fix line lastIndex m
  assume "exec_from rx_twig_span lastIndex (drop lastIndex line) = Some m"
  from exec_from_bound [OF this]
  show "((line, m_index m + m_len m), (line, lastIndex))
      \<in> measure (\<lambda>(line, lastIndex). Suc (length line) - lastIndex)"
    by (auto simp: min_len_twig_span)
qed

declare split_loop.simps [simp del]

definition splitTwigLine :: "string \<Rightarrow> string list" where
  "splitTwigLine line = filter (\<lambda>s. length (trim s) > 0) (split_loop line 0)"

section \<open>The tag classifiers\<close>

text \<open>\<open>\{%-?\s*\<close>, the start of every template tag pattern\<close>

definition tag_start :: "rx list" where
  "tag_start = [Lit ''{%'', Opt (Lit ''-''), Star is_space]"

text \<open>\<open>/\{%-?\s*kw\s+/\<close>\<close>

definition tag_ws :: "string \<Rightarrow> rx" where
  "tag_ws kw = seqs (tag_start @ [Lit kw, Plus is_space])"

text \<open>\<open>/\{%-?\s*kw\s*%\}/\<close>\<close>

definition tag_end :: "string \<Rightarrow> rx" where
  "tag_end kw = seqs (tag_start @ [Lit kw, Star is_space, Lit ''%}''])"

text \<open>\<open>/\{%-?\s*kw\s*-?%\}/\<close>\<close>

definition tag_dash_end :: "string \<Rightarrow> rx" where
  "tag_dash_end kw = seqs (tag_start @ [Lit kw, Star is_space, Opt (Lit ''-''), Lit ''%}''])"

definition openingTags :: "rx list" where
  "openingTags =
     [tag_ws ''block'', tag_ws ''for'', tag_ws ''if'', tag_ws ''macro'', tag_ws ''embed'',
      tag_ws ''autoescape'', tag_end ''spaceless'', tag_end ''trans'', tag_ws ''apply'',
      tag_ws ''cache'', tag_end ''sandbox'', tag_ws ''with'', tag_end ''verbatim'']"

text \<open>\<open>/^\{%-?\s*set\s+.+%\}$/\<close>\<close>

definition rx_single_line_set :: rx where
  "rx_single_line_set =
     seqs (tag_start @ [Lit ''set'', Plus is_space, Plus is_dot, Lit ''%}'', Eol])"

definition isOpeningTag :: "string \<Rightarrow> bool" where
  "isOpeningTag line =
     (if test_start rx_single_line_set line then False
      else list_ex (\<lambda>pattern. test pattern line) openingTags)"

definition closingTags :: "rx list" where
  "closingTags =
     [tag_dash_end ''endblock'', tag_dash_end ''endfor'', tag_dash_end ''endif'',
      tag_dash_end ''endmacro'', tag_dash_end ''endset'', tag_dash_end ''endembed'',
      tag_dash_end ''endautoescape'', tag_dash_end ''endspaceless'', tag_dash_end ''endtrans'',
      tag_dash_end ''endapply'', tag_dash_end ''endcache'', tag_dash_end ''endsandbox'',
      tag_dash_end ''endwith'', tag_dash_end ''endverbatim'', tag_dash_end ''else'',
      tag_ws ''elseif'']"

definition isClosingTag :: "string \<Rightarrow> bool" where
  "isClosingTag line = list_ex (\<lambda>pattern. test pattern line) closingTags"

definition selfClosing :: "rx list" where
  "selfClosing =
     [tag_ws ''include'', tag_ws ''import'', tag_ws ''from'', tag_ws ''use'',
      tag_ws ''extends'', tag_ws ''do'', tag_dash_end ''flush'', tag_ws ''deprecated'']"

definition isSelfClosingTag :: "string \<Rightarrow> bool" where
  "isSelfClosingTag line = list_ex (\<lambda>pattern. test pattern line) selfClosing"

definition midBlockTags :: "rx list" where
  "midBlockTags = [tag_dash_end ''else'', tag_ws ''elseif'']"

definition isMidBlockTag :: "string \<Rightarrow> bool" where
  "isMidBlockTag line = list_ex (\<lambda>pattern. test pattern line) midBlockTags"

text \<open>
  \<open>/\{%-?\s*(if|for|block|macro|embed|autoescape|apply|cache|sandbox|with)\s+.*%\}\s*\{%-?\s*end\1\s*-?%\}/\<close>
\<close>

definition rx_single_line_block :: rx where
  "rx_single_line_block =
     seqs (tag_start @
       [Grp 1 (alts [''if'', ''for'', ''block'', ''macro'', ''embed'', ''autoescape'', ''apply'',
                     ''cache'', ''sandbox'', ''with'']),
        Plus is_space, Star is_dot, Lit ''%}'', Star is_space] @
       tag_start @ [Lit ''end'', Ref 1, Star is_space, Opt (Lit ''-''), Lit ''%}''])"

definition isSingleLineBlock :: "string \<Rightarrow> bool" where
  "isSingleLineBlock line = test rx_single_line_block line"

text \<open>\<open>/[a-zA-Z0-9-]+=(["']).*\{[{%].*\1/\<close>\<close>

definition rx_twig_inside_attribute :: rx where
  "rx_twig_inside_attribute =
     seqs [Plus is_alnum_dash, Lit ''='', Grp 1 (Cls is_quote), Star is_dot, Lit ''{'',
           Cls is_brace_pct, Star is_dot, Ref 1]"

definition isTwigInsideAttribute :: "string \<Rightarrow> bool" where
  "isTwigInsideAttribute line = test rx_twig_inside_attribute line"

text \<open>\<open>/<[a-zA-Z][a-zA-Z0-9]*(\s[^<>]*)?>/\<close>\<close>

definition rx_html_opening :: rx where
  "rx_html_opening =
     seqs [Lit ''<'', Cls is_alpha, Star is_alnum,
           Opt (Grp 1 (Seq (Cls is_space) (Star not_angle))), Lit ''>'']"

definition isHtmlOpeningTag :: "string \<Rightarrow> bool" where
  "isHtmlOpeningTag line = test rx_html_opening line"

text \<open>\<open>/<\/[a-zA-Z][a-zA-Z0-9]*>/\<close>\<close>

definition rx_html_closing :: rx where
  "rx_html_closing = seqs [Lit ''</'', Cls is_alpha, Star is_alnum, Lit ''>'']"

definition isHtmlClosingTag :: "string \<Rightarrow> bool" where
  "isHtmlClosingTag line = test rx_html_closing line"

text \<open>
  \<open>/<(area|base|br|col|embed|hr|img|input|link|meta|param|source|track|wbr)(\s[^>]*)?\/?>$/i\<close>
\<close>

definition selfClosingTags :: rx where
  "selfClosingTags =
     seqs [Lit ''<'',
           Grp 1 (altsI [''area'', ''base'', ''br'', ''col'', ''embed'', ''hr'', ''img'', ''input'',
                         ''link'', ''meta'', ''param'', ''source'', ''track'', ''wbr'']),
           Opt (Grp 2 (Seq (Cls is_space) (Star not_gt))), Opt (Lit ''/''), Lit ''>'', Eol]"

definition isHtmlSelfClosingTag :: "string \<Rightarrow> bool" where
  "isHtmlSelfClosingTag line =
     (let trimmed = trim line in test selfClosingTags trimmed \<or> ends_with ''/>'' trimmed)"

definition shouldDecreaseHtmlIndent :: "string \<Rightarrow> bool \<Rightarrow> bool" where
  "shouldDecreaseHtmlIndent line isCompleteTag =
     (\<not> isCompleteTag \<and> isHtmlClosingTag line \<and> \<not> isHtmlSelfClosingTag line)"

definition shouldIncreaseHtmlIndent :: "string \<Rightarrow> bool \<Rightarrow> bool" where
  "shouldIncreaseHtmlIndent line isCompleteTag =
     (\<not> isCompleteTag \<and> isHtmlOpeningTag line \<and> \<not> isHtmlSelfClosingTag line
      \<and> \<not> isHtmlClosingTag line)"

section \<open>The formatter\<close>

text \<open>The fields that the constructor of \<open>TwigFormatter\<close> sets.\<close>

record config =
  indentSize :: nat
  useTabs :: bool
  preserveNewLines :: bool

definition default_config :: config where
  "default_config = \<lparr>indentSize = 4, useTabs = False, preserveNewLines = True\<rparr>"

text \<open>The local variables of \<open>format\<close> that live across the lines of the document.\<close>

record fstate =
  formattedLines :: "string list"
  twigIndentLevel :: int
  htmlIndentLevel :: int
  inComment :: bool
  inVerbatim :: bool
  inScriptTag :: bool
  inStyleTag :: bool
  scriptTagBaseIndent :: int
  styleTagBaseIndent :: int
  insideTwigAttribute :: bool
  attributeQuote :: "string option"
  attributeLines :: "string list"

definition initial_state :: fstate where
  "initial_state =
     \<lparr>formattedLines = [], twigIndentLevel = 0, htmlIndentLevel = 0, inComment = False,
      inVerbatim = False, inScriptTag = False, inStyleTag = False, scriptTagBaseIndent = 0,
      styleTagBaseIndent = 0, insideTwigAttribute = False, attributeQuote = None,
      attributeLines = []\<rparr>"

text \<open>\<open>String.prototype.repeat\<close> throws a \<open>RangeError\<close> on a negative count.\<close>

datatype error = RangeError

definition repeat :: "string \<Rightarrow> int \<Rightarrow> error + string" where
  "repeat s n = (if n < 0 then Inl RangeError else Inr (concat (replicate (nat n) s)))"

definition indentChar :: "config \<Rightarrow> string" where
  "indentChar cfg = (if useTabs cfg then [TAB] else replicate (indentSize cfg) (CHR '' ''))"

text \<open>
  \<open>formattedLines.push(indentChar.repeat(twigIndentLevel + htmlIndentLevel) + text)\<close>
\<close>

definition push_line :: "config \<Rightarrow> string \<Rightarrow> fstate \<Rightarrow> error + fstate" where
  "push_line cfg txt st =
     (case repeat (indentChar cfg) (twigIndentLevel st + htmlIndentLevel st) of
        Inl e \<Rightarrow> Inl e
      | Inr indent \<Rightarrow> Inr (st\<lparr>formattedLines := formattedLines st @ [indent @ txt]\<rparr>))"

text \<open>The body of the loop over the runs of a line.\<close>

definition format_item :: "config \<Rightarrow> fstate \<Rightarrow> string \<Rightarrow> error + fstate" where
  "format_item cfg st run =
     (let item = trim run;
          isCompleteTag = (isHtmlOpeningTag item \<and> isHtmlClosingTag item)
      in if isTwigInsideAttribute item then push_line cfg item st
         else
           (let st1 = (if shouldDecreaseHtmlIndent item isCompleteTag
                       then st\<lparr>htmlIndentLevel := max 0 (htmlIndentLevel st - 1)\<rparr> else st);
                st2 = (if isClosingTag item
                       then st1\<lparr>twigIndentLevel := max 0 (twigIndentLevel st1 - 1)\<rparr> else st1)
            in case push_line cfg item st2 of
                 Inl e \<Rightarrow> Inl e
               | Inr st3 \<Rightarrow>
                   (let st4 = (if isOpeningTag item \<and> \<not> isSelfClosingTag item
                                  \<and> \<not> isSingleLineBlock item
                               then st3\<lparr>twigIndentLevel := twigIndentLevel st3 + 1\<rparr> else st3);
                        st5 = (if isMidBlockTag item
                               then st4\<lparr>twigIndentLevel := twigIndentLevel st4 + 1\<rparr> else st4);
                        st6 = (if shouldIncreaseHtmlIndent item isCompleteTag
                               then st5\<lparr>htmlIndentLevel := htmlIndentLevel st5 + 1\<rparr> else st5)
                    in Inr st6)))"

fun format_items :: "config \<Rightarrow> fstate \<Rightarrow> string list \<Rightarrow> error + fstate" where
  "format_items cfg st [] = Inr st"
| "format_items cfg st (run # runs) =
     (case format_item cfg st run of Inl e \<Rightarrow> Inl e | Inr st' \<Rightarrow> format_items cfg st' runs)"

text \<open>
  \<open>/<[\w\-]+[^>]*(class|style|[a-zA-Z\-]+)=([\'"])([^\'"]*({%|{{)[^\'"]*)$/\<close>
\<close>

definition rx_attr_start :: rx where
  "rx_attr_start =
     seqs [Lit ''<'', Plus is_word_dash, Star not_gt,
           Grp 1 (Alt (Lit ''class'') (Alt (Lit ''style'') (Plus is_alpha_dash))),
           Lit ''='', Grp 2 (Cls is_quote),
           Grp 3 (seqs [Star not_quote, Grp 4 (Alt (Lit ''{%'') (Lit ''{{'')), Star not_quote]),
           Eol]"

text \<open>\<open>/<[\w\-]+[^>]*=[\'"][^\'"]*({%|{{)[^\'"]*[\'"][^>]*>/\<close>\<close>

definition rx_attr_single :: rx where
  "rx_attr_single =
     seqs [Lit ''<'', Plus is_word_dash, Star not_gt, Lit ''='', Cls is_quote, Star not_quote,
           Grp 1 (Alt (Lit ''{%'') (Lit ''{{'')), Star not_quote, Cls is_quote, Star not_gt,
           Lit ''>'']"

text \<open>\<open>/\{%\s*verbatim\s*%\}/\<close> and \<open>/\{%\s*endverbatim\s*%\}/\<close>\<close>

definition rx_verbatim :: rx where
  "rx_verbatim = seqs [Lit ''{%'', Star is_space, Lit ''verbatim'', Star is_space, Lit ''%}'']"

definition rx_endverbatim :: rx where
  "rx_endverbatim =
     seqs [Lit ''{%'', Star is_space, Lit ''endverbatim'', Star is_space, Lit ''%}'']"

text \<open>
  \<open>/<script[^>]*>/i\<close>, \<open>/<\/script>/i\<close>, \<open>/<style[^>]*>/i\<close> and \<open>/<\/style>/i\<close>
\<close>

definition rx_script_open :: rx where
  "rx_script_open = seqs [LitI ''<script'', Star not_gt, Lit ''>'']"

definition rx_script_close :: rx where
  "rx_script_close = LitI ''</script>''"

definition rx_style_open :: rx where
  "rx_style_open = seqs [LitI ''<style'', Star not_gt, Lit ''>'']"

definition rx_style_close :: rx where
  "rx_style_close = LitI ''</style>''"

definition isScriptOpening :: "string \<Rightarrow> bool" where
  "isScriptOpening trimmedLine =
     (test rx_script_open trimmedLine \<and> \<not> test rx_script_close trimmedLine)"

definition isScriptClosing :: "string \<Rightarrow> bool" where
  "isScriptClosing trimmedLine = test rx_script_close trimmedLine"

definition isStyleOpening :: "string \<Rightarrow> bool" where
  "isStyleOpening trimmedLine =
     (test rx_style_open trimmedLine \<and> \<not> test rx_style_close trimmedLine)"

definition isStyleClosing :: "string \<Rightarrow> bool" where
  "isStyleClosing trimmedLine = test rx_style_close trimmedLine"

text \<open>
  \<open>(openBraces + openBrackets) - (closeBraces + closeBrackets)\<close> of a line inside a
  script or style element
\<close>

definition netChange :: "string \<Rightarrow> int" where
  "netChange trimmed =
     (int (count_char (CHR ''{'') trimmed) + int (count_char (CHR ''['') trimmed))
     - (int (count_char (CHR ''}'') trimmed) + int (count_char (CHR '']'') trimmed))"

text \<open>
  \<open>attributeLines.join('\n').split(attributeQuote).length - 1\<close>; a separator \<open>null\<close> is
  converted to the string \<open>null\<close>.
\<close>

definition quoteCount :: "string option \<Rightarrow> string list \<Rightarrow> int" where
  "quoteCount quote lines =
     int (split_length (case quote of None \<Rightarrow> ''null'' | Some q \<Rightarrow> q) (join [NL] lines)) - 1"

text \<open>The branches of the loop body of \<open>format\<close>, each up to its \<open>continue\<close>.\<close>

definition attribute_continue :: "config \<Rightarrow> fstate \<Rightarrow> string \<Rightarrow> error + fstate" where
  "attribute_continue cfg st line =
     (let lines = attributeLines st @ [line]
      in if quoteCount (attributeQuote st) lines mod 2 = 0
         then (case push_line cfg (collapseTwigAttribute lines) (st\<lparr>attributeLines := lines\<rparr>) of
                 Inl e \<Rightarrow> Inl e
               | Inr st' \<Rightarrow>
                   Inr (st'\<lparr>insideTwigAttribute := False, attributeLines := [],
                            attributeQuote := None\<rparr>))
         else Inr (st\<lparr>attributeLines := lines\<rparr>))"

definition script_opening :: "config \<Rightarrow> fstate \<Rightarrow> string \<Rightarrow> error + fstate" where
  "script_opening cfg st trimmedLine =
     (case push_line cfg trimmedLine st of
        Inl e \<Rightarrow> Inl e
      | Inr st' \<Rightarrow>
          Inr (st'\<lparr>inScriptTag := True, scriptTagBaseIndent := htmlIndentLevel st',
                   htmlIndentLevel := htmlIndentLevel st' + 1\<rparr>))"

definition style_opening :: "config \<Rightarrow> fstate \<Rightarrow> string \<Rightarrow> error + fstate" where
  "style_opening cfg st trimmedLine =
     (case push_line cfg trimmedLine st of
        Inl e \<Rightarrow> Inl e
      | Inr st' \<Rightarrow>
          Inr (st'\<lparr>inStyleTag := True, styleTagBaseIndent := htmlIndentLevel st',
                   htmlIndentLevel := htmlIndentLevel st' + 1\<rparr>))"

definition script_closing :: "config \<Rightarrow> fstate \<Rightarrow> string \<Rightarrow> error + fstate" where
  "script_closing cfg st trimmedLine =
     push_line cfg trimmedLine
       (st\<lparr>htmlIndentLevel := scriptTagBaseIndent st, inScriptTag := False\<rparr>)"

definition style_closing :: "config \<Rightarrow> fstate \<Rightarrow> string \<Rightarrow> error + fstate" where
  "style_closing cfg st trimmedLine =
     push_line cfg trimmedLine
       (st\<lparr>htmlIndentLevel := styleTagBaseIndent st, inStyleTag := False\<rparr>)"

definition script_body :: "config \<Rightarrow> fstate \<Rightarrow> string \<Rightarrow> error + fstate" where
  "script_body cfg st trimmedLine =
     (let n = netChange trimmedLine;
          st1 = (if n < 0 then st\<lparr>htmlIndentLevel := max 0 (htmlIndentLevel st + n)\<rparr> else st)
      in case push_line cfg trimmedLine st1 of
           Inl e \<Rightarrow> Inl e
         | Inr st2 \<Rightarrow>
             Inr (if n > 0 then st2\<lparr>htmlIndentLevel := htmlIndentLevel st2 + n\<rparr> else st2))"

definition comment_line :: "config \<Rightarrow> fstate \<Rightarrow> string \<Rightarrow> error + fstate" where
  "comment_line cfg st trimmedLine =
     (case push_line cfg trimmedLine st of
        Inl e \<Rightarrow> Inl e
      | Inr st' \<Rightarrow>
          Inr (if includes_str ''#}'' trimmedLine then st'\<lparr>inComment := False\<rparr> else st'))"

definition verbatim_line :: "config \<Rightarrow> fstate \<Rightarrow> string \<Rightarrow> error + fstate" where
  "verbatim_line cfg st trimmedLine =
     (case push_line cfg trimmedLine st of
        Inl e \<Rightarrow> Inl e
      | Inr st' \<Rightarrow>
          Inr (if test rx_endverbatim trimmedLine then st'\<lparr>inVerbatim := False\<rparr> else st'))"

text \<open>The lines 160 to 312 of the loop body: a line that is neither attribute nor blank.\<close>

definition format_content :: "config \<Rightarrow> fstate \<Rightarrow> string \<Rightarrow> error + fstate" where
  "format_content cfg st line =
     (let trimmedLine = trim line;
          st1 = (if includes_str ''{#'' trimmedLine then st\<lparr>inComment := True\<rparr> else st)
      in if inComment st1 then comment_line cfg st1 trimmedLine
         else
           (let st2 = (if test rx_verbatim trimmedLine then st1\<lparr>inVerbatim := True\<rparr> else st1)
            in if inVerbatim st2 then verbatim_line cfg st2 trimmedLine
               else if isScriptOpening trimmedLine then script_opening cfg st2 trimmedLine
               else if isStyleOpening trimmedLine then style_opening cfg st2 trimmedLine
               else if isScriptClosing trimmedLine then script_closing cfg st2 trimmedLine
               else if isStyleClosing trimmedLine then style_closing cfg st2 trimmedLine
               else if inScriptTag st2 \<or> inStyleTag st2 then script_body cfg st2 trimmedLine
               else format_items cfg st2 (splitTwigLine line)))"

text \<open>The body of the loop over the lines of the document.\<close>

definition format_line :: "config \<Rightarrow> fstate \<Rightarrow> string \<Rightarrow> error + fstate" where
  "format_line cfg st line =
     (let trimmedLine = trim line
      in if insideTwigAttribute st then attribute_continue cfg st line
         else
           (case exec rx_attr_start line of
              Some attrMatch \<Rightarrow>
                Inr (st\<lparr>insideTwigAttribute := True, attributeQuote := Some (cap attrMatch 2),
                        attributeLines := [line]\<rparr>)
            | None \<Rightarrow>
                if test rx_attr_single line then push_line cfg (collapseTwigAttribute [line]) st
                else if trimmedLine = [] \<and> preserveNewLines cfg
                then Inr (st\<lparr>formattedLines := formattedLines st @ [[]]\<rparr>)
                else if trimmedLine = [] \<and> \<not> preserveNewLines cfg then Inr st
                else format_content cfg st line))"

fun format_lines :: "config \<Rightarrow> fstate \<Rightarrow> string list \<Rightarrow> error + fstate" where
  "format_lines cfg st [] = Inr st"
| "format_lines cfg st (line # lines) =
     (case format_line cfg st line of Inl e \<Rightarrow> Inl e | Inr st' \<Rightarrow> format_lines cfg st' lines)"

text \<open>
  The branch of the loop body that handles a line in a state, in the order in which the
  loop body tests for them.
\<close>

datatype rule =
    AttributeContinue | AttributeStart | AttributeSingle | Blank | Comment | Verbatim
  | ScriptOpen | StyleOpen | ScriptClose | StyleClose | ScriptBody | Normal

definition rule_of :: "fstate \<Rightarrow> string \<Rightarrow> rule" where
  "rule_of st line =
     (let trimmedLine = trim line
      in if insideTwigAttribute st then AttributeContinue
         else if exec rx_attr_start line \<noteq> None then AttributeStart
         else if test rx_attr_single line then AttributeSingle
         else if trimmedLine = [] then Blank
         else if includes_str ''{#'' trimmedLine \<or> inComment st then Comment
         else if test rx_verbatim trimmedLine \<or> inVerbatim st then Verbatim
         else if isScriptOpening trimmedLine then ScriptOpen
         else if isStyleOpening trimmedLine then StyleOpen
         else if isScriptClosing trimmedLine then ScriptClose
         else if isStyleClosing trimmedLine then StyleClose
         else if inScriptTag st \<or> inStyleTag st then ScriptBody
         else Normal)"

definition format :: "config \<Rightarrow> string \<Rightarrow> error + string" where
  "format cfg text =
     (case format_lines cfg initial_state (split_nl text) of
        Inl e \<Rightarrow> Inl e
      | Inr st \<Rightarrow> Inr (join [NL] (formattedLines st)))"

section \<open>Properties of the formatter\<close>

subsection \<open>Emission never fails when the depths are not negative\<close>

text \<open>The indent prefix of \<open>n\<close> levels.\<close>

definition indentation :: "config \<Rightarrow> int \<Rightarrow> string" where
  "indentation cfg n = concat (replicate (nat n) (indentChar cfg))"

definition depths_ok :: "fstate \<Rightarrow> bool" where
  "depths_ok st =
     (0 \<le> twigIndentLevel st \<and> 0 \<le> htmlIndentLevel st
      \<and> 0 \<le> scriptTagBaseIndent st \<and> 0 \<le> styleTagBaseIndent st)"

lemma push_line_Inr:
  "0 \<le> twigIndentLevel st + htmlIndentLevel st \<Longrightarrow>
   push_line cfg txt st =
     Inr (st\<lparr>formattedLines := formattedLines st
            @ [indentation cfg (twigIndentLevel st + htmlIndentLevel st) @ txt]\<rparr>)"
  by (simp add: push_line_def repeat_def indentation_def)

lemma format_item_depths:
  assumes "depths_ok st"
  shows "\<exists>st'. format_item cfg st run = Inr st' \<and> depths_ok st'"
  using assms
  by (auto simp: format_item_def Let_def depths_ok_def push_line_Inr)

lemma format_items_depths:
  "depths_ok st \<Longrightarrow> \<exists>st'. format_items cfg st runs = Inr st' \<and> depths_ok st'"
proof (induction runs arbitrary: st)
  case Nil
  then show ?case by simp
next
  case (Cons run runs)
  from format_item_depths [OF Cons.prems] obtain st1
    where "format_item cfg st run = Inr st1" and "depths_ok st1" by blast
  with Cons.IH [of st1] show ?case by simp
qed

lemma format_content_depths:
  assumes "depths_ok st"
  shows "\<exists>st'. format_content cfg st line = Inr st' \<and> depths_ok st'"
  using assms format_items_depths [OF assms, of cfg "splitTwigLine line"]
  by (auto simp: format_content_def Let_def depths_ok_def push_line_Inr script_opening_def
      style_opening_def script_closing_def style_closing_def script_body_def
      comment_line_def verbatim_line_def)

lemma attribute_continue_depths:
  assumes "depths_ok st"
  shows "\<exists>st'. attribute_continue cfg st line = Inr st' \<and> depths_ok st'"
  using assms
  by (auto simp: attribute_continue_def Let_def depths_ok_def push_line_Inr)

lemma format_line_depths:
  assumes "depths_ok st"
  shows "\<exists>st'. format_line cfg st line = Inr st' \<and> depths_ok st'"
  using assms attribute_continue_depths [OF assms, of cfg line]
    format_content_depths [OF assms, of cfg line]
  by (auto simp: format_line_def Let_def depths_ok_def push_line_Inr split: option.splits)

lemma format_lines_depths:
  "depths_ok st \<Longrightarrow> \<exists>st'. format_lines cfg st lines = Inr st' \<and> depths_ok st'"
proof (induction lines arbitrary: st)
  case Nil
  then show ?case by simp
next
  case (Cons line lines)
  from format_line_depths [OF Cons.prems] obtain st1
    where "format_line cfg st line = Inr st1" and "depths_ok st1" by blast
  with Cons.IH [of st1] show ?case by simp
qed

lemma depths_ok_initial: "depths_ok initial_state"
  by (simp add: depths_ok_def initial_state_def)

lemma default_indentation:
  "indentation default_config 0 = []"
  "indentation default_config 1 = ''    ''"
  "indentation default_config 2 = ''        ''"
  by code_simp+

subsection \<open>The branches of the loop body\<close>

text \<open>
  \<open>rule_of\<close> names the branch that \<open>format_line\<close> takes; the lemmas below say when each
  branch is taken and what \<open>format_line\<close> is on it.
\<close>

lemma set_inComment_idem: "inComment st \<Longrightarrow> st\<lparr>inComment := True\<rparr> = st"
  by (cases st) simp

lemma set_inVerbatim_idem: "inVerbatim st \<Longrightarrow> st\<lparr>inVerbatim := True\<rparr> = st"
  by (cases st) simp

lemma rule_AttributeContinue:
  "rule_of st line = AttributeContinue \<longleftrightarrow> insideTwigAttribute st"
  by (simp add: rule_of_def Let_def)

lemma rule_AttributeStart:
  "rule_of st line = AttributeStart \<longleftrightarrow>
     \<not> insideTwigAttribute st \<and> exec rx_attr_start line \<noteq> None"
  by (simp add: rule_of_def Let_def)

lemma rule_AttributeSingle:
  "rule_of st line = AttributeSingle \<longleftrightarrow>
     \<not> insideTwigAttribute st \<and> exec rx_attr_start line = None \<and> test rx_attr_single line"
  by (simp add: rule_of_def Let_def)

lemma rule_Blank:
  "rule_of st line = Blank \<longleftrightarrow>
     \<not> insideTwigAttribute st \<and> exec rx_attr_start line = None \<and> \<not> test rx_attr_single line
     \<and> trim line = []"
  by (simp add: rule_of_def Let_def)

text \<open>A line reaches the tests on its content.\<close>

definition reaches_content :: "fstate \<Rightarrow> string \<Rightarrow> bool" where
  "reaches_content st line =
     (\<not> insideTwigAttribute st \<and> exec rx_attr_start line = None \<and> \<not> test rx_attr_single line
      \<and> trim line \<noteq> [])"

lemma rule_Comment:
  "rule_of st line = Comment \<longleftrightarrow>
     reaches_content st line \<and> (includes_str ''{#'' (trim line) \<or> inComment st)"
  by (simp add: rule_of_def Let_def reaches_content_def)

lemma rule_Verbatim:
  "rule_of st line = Verbatim \<longleftrightarrow>
     reaches_content st line \<and> \<not> includes_str ''{#'' (trim line) \<and> \<not> inComment st
     \<and> (test rx_verbatim (trim line) \<or> inVerbatim st)"
  by (simp add: rule_of_def Let_def reaches_content_def)

text \<open>A line reaches the tests for script and style tags.\<close>

definition reaches_tags :: "fstate \<Rightarrow> string \<Rightarrow> bool" where
  "reaches_tags st line =
     (reaches_content st line \<and> \<not> includes_str ''{#'' (trim line) \<and> \<not> inComment st
      \<and> \<not> test rx_verbatim (trim line) \<and> \<not> inVerbatim st)"

lemma rule_ScriptOpen:
  "rule_of st line = ScriptOpen \<longleftrightarrow> reaches_tags st line \<and> isScriptOpening (trim line)"
  by (simp add: rule_of_def Let_def reaches_content_def reaches_tags_def)

lemma rule_StyleOpen:
  "rule_of st line = StyleOpen \<longleftrightarrow>
     reaches_tags st line \<and> \<not> isScriptOpening (trim line) \<and> isStyleOpening (trim line)"
  by (simp add: rule_of_def Let_def reaches_content_def reaches_tags_def)

lemma rule_ScriptClose:
  "rule_of st line = ScriptClose \<longleftrightarrow>
     reaches_tags st line \<and> \<not> isScriptOpening (trim line) \<and> \<not> isStyleOpening (trim line)
     \<and> isScriptClosing (trim line)"
  by (simp add: rule_of_def Let_def reaches_content_def reaches_tags_def)

lemma rule_StyleClose:
  "rule_of st line = StyleClose \<longleftrightarrow>
     reaches_tags st line \<and> \<not> isScriptOpening (trim line) \<and> \<not> isStyleOpening (trim line)
     \<and> \<not> isScriptClosing (trim line) \<and> isStyleClosing (trim line)"
  by (simp add: rule_of_def Let_def reaches_content_def reaches_tags_def)

lemma rule_ScriptBody:
  "rule_of st line = ScriptBody \<longleftrightarrow>
     reaches_tags st line \<and> \<not> isScriptOpening (trim line) \<and> \<not> isStyleOpening (trim line)
     \<and> \<not> isScriptClosing (trim line) \<and> \<not> isStyleClosing (trim line)
     \<and> (inScriptTag st \<or> inStyleTag st)"
  by (simp add: rule_of_def Let_def reaches_content_def reaches_tags_def)

lemma rule_Normal:
  "rule_of st line = Normal \<longleftrightarrow>
     reaches_tags st line \<and> \<not> isScriptOpening (trim line) \<and> \<not> isStyleOpening (trim line)
     \<and> \<not> isScriptClosing (trim line) \<and> \<not> isStyleClosing (trim line)
     \<and> \<not> inScriptTag st \<and> \<not> inStyleTag st"
  by (simp add: rule_of_def Let_def reaches_content_def reaches_tags_def)

lemma format_line_content:
  "reaches_content st line \<Longrightarrow> format_line cfg st line = format_content cfg st line"
  by (simp add: reaches_content_def format_line_def Let_def)

lemma format_line_AttributeContinue:
  "rule_of st line = AttributeContinue \<Longrightarrow>
     format_line cfg st line = attribute_continue cfg st line"
  by (simp add: rule_AttributeContinue format_line_def Let_def)

lemma format_line_AttributeStart:
  "rule_of st line = AttributeStart \<Longrightarrow>
     format_line cfg st line =
       Inr (st\<lparr>insideTwigAttribute := True,
               attributeQuote := Some (cap (the (exec rx_attr_start line)) 2),
               attributeLines := [line]\<rparr>)"
  by (auto simp add: rule_AttributeStart format_line_def Let_def)

lemma format_line_AttributeSingle:
  "rule_of st line = AttributeSingle \<Longrightarrow>
     format_line cfg st line = push_line cfg (collapseTwigAttribute [line]) st"
  by (simp add: rule_AttributeSingle format_line_def Let_def)

lemma format_line_Blank:
  "rule_of st line = Blank \<Longrightarrow>
     format_line cfg st line =
       Inr (if preserveNewLines cfg then st\<lparr>formattedLines := formattedLines st @ [[]]\<rparr>
            else st)"
  by (simp add: rule_Blank format_line_def Let_def)

lemma format_line_Comment:
  assumes "rule_of st line = Comment"
  shows "format_line cfg st line = comment_line cfg (st\<lparr>inComment := True\<rparr>) (trim line)"
proof -
  from assms have r: "reaches_content st line"
    and c: "includes_str ''{#'' (trim line) \<or> inComment st"
    by (simp_all add: rule_Comment)
  show ?thesis
  proof (cases "includes_str ''{#'' (trim line)")
    case True
    then show ?thesis by (simp add: format_line_content [OF r] format_content_def Let_def)
  next
    case False
    with c have "inComment st" by simp
    with False show ?thesis
      by (simp add: format_line_content [OF r] format_content_def Let_def set_inComment_idem)
  qed
qed

lemma format_line_Verbatim:
  assumes "rule_of st line = Verbatim"
  shows "format_line cfg st line = verbatim_line cfg (st\<lparr>inVerbatim := True\<rparr>) (trim line)"
proof -
  from assms have r: "reaches_content st line"
    and n: "\<not> includes_str ''{#'' (trim line)" "\<not> inComment st"
    and c: "test rx_verbatim (trim line) \<or> inVerbatim st"
    by (simp_all add: rule_Verbatim)
  show ?thesis
  proof (cases "test rx_verbatim (trim line)")
    case True
    with n show ?thesis by (simp add: format_line_content [OF r] format_content_def Let_def)
  next
    case False
    with c have "inVerbatim st" by simp
    with False n show ?thesis
      by (simp add: format_line_content [OF r] format_content_def Let_def set_inVerbatim_idem)
  qed
qed

lemma format_content_tags:
  assumes "reaches_tags st line"
  shows "format_line cfg st line =
     (if isScriptOpening (trim line) then script_opening cfg st (trim line)
      else if isStyleOpening (trim line) then style_opening cfg st (trim line)
      else if isScriptClosing (trim line) then script_closing cfg st (trim line)
      else if isStyleClosing (trim line) then style_closing cfg st (trim line)
      else if inScriptTag st \<or> inStyleTag st then script_body cfg st (trim line)
      else format_items cfg st (splitTwigLine line))"
proof -
  from assms have r: "reaches_content st line"
    and n: "\<not> includes_str ''{#'' (trim line)" "\<not> inComment st"
      "\<not> test rx_verbatim (trim line)" "\<not> inVerbatim st"
    by (simp_all add: reaches_tags_def)
  from n show ?thesis
    by (simp add: format_line_content [OF r] format_content_def Let_def)
qed

lemma format_line_ScriptOpen:
  "rule_of st line = ScriptOpen \<Longrightarrow> format_line cfg st line = script_opening cfg st (trim line)"
  by (simp add: rule_ScriptOpen format_content_tags)

lemma format_line_StyleOpen:
  "rule_of st line = StyleOpen \<Longrightarrow> format_line cfg st line = style_opening cfg st (trim line)"
  by (simp add: rule_StyleOpen format_content_tags)

lemma format_line_ScriptClose:
  "rule_of st line = ScriptClose \<Longrightarrow> format_line cfg st line = script_closing cfg st (trim line)"
  by (simp add: rule_ScriptClose format_content_tags)

lemma format_line_StyleClose:
  "rule_of st line = StyleClose \<Longrightarrow> format_line cfg st line = style_closing cfg st (trim line)"
  by (simp add: rule_StyleClose format_content_tags)

lemma format_line_ScriptBody:
  "rule_of st line = ScriptBody \<Longrightarrow> format_line cfg st line = script_body cfg st (trim line)"
  by (simp add: rule_ScriptBody format_content_tags)

lemma format_line_Normal:
  "rule_of st line = Normal \<Longrightarrow>
     format_line cfg st line = format_items cfg st (splitTwigLine line)"
  by (simp add: rule_Normal format_content_tags)


subsection \<open>What the runs of a line leave alone\<close>

lemma push_line_cases:
  "push_line cfg txt st = Inr st' \<Longrightarrow>
     \<exists>ind. st' = st\<lparr>formattedLines := formattedLines st @ [ind @ txt]\<rparr>"
  by (auto simp: push_line_def split: sum.splits)

lemma format_item_flags:
  assumes "format_item cfg st run = Inr st'"
  shows "inComment st' = inComment st \<and> inVerbatim st' = inVerbatim st
     \<and> inScriptTag st' = inScriptTag st \<and> inStyleTag st' = inStyleTag st
     \<and> insideTwigAttribute st' = insideTwigAttribute st
     \<and> scriptTagBaseIndent st' = scriptTagBaseIndent st
     \<and> styleTagBaseIndent st' = styleTagBaseIndent st
     \<and> attributeLines st' = attributeLines st \<and> attributeQuote st' = attributeQuote st
     \<and> (\<exists>ind. formattedLines st' = formattedLines st @ [ind @ trim run])"
proof (cases "isTwigInsideAttribute (trim run)")
  case True
  with assms have "push_line cfg (trim run) st = Inr st'"
    by (simp add: format_item_def Let_def)
  from push_line_cases [OF this] show ?thesis by auto
next
  case False
  with assms obtain st2 st3 where
    st2: "st2 = (let st1 = (if shouldDecreaseHtmlIndent (trim run)
                 (isHtmlOpeningTag (trim run) \<and> isHtmlClosingTag (trim run))
               then st\<lparr>htmlIndentLevel := max 0 (htmlIndentLevel st - 1)\<rparr> else st)
           in if isClosingTag (trim run)
              then st1\<lparr>twigIndentLevel := max 0 (twigIndentLevel st1 - 1)\<rparr> else st1)"
    and p: "push_line cfg (trim run) st2 = Inr st3"
    and r: "st' = (let st4 = (if isOpeningTag (trim run) \<and> \<not> isSelfClosingTag (trim run)
                                  \<and> \<not> isSingleLineBlock (trim run)
                               then st3\<lparr>twigIndentLevel := twigIndentLevel st3 + 1\<rparr> else st3);
                        st5 = (if isMidBlockTag (trim run)
                               then st4\<lparr>twigIndentLevel := twigIndentLevel st4 + 1\<rparr> else st4)
                    in if shouldIncreaseHtmlIndent (trim run)
                          (isHtmlOpeningTag (trim run) \<and> isHtmlClosingTag (trim run))
                       then st5\<lparr>htmlIndentLevel := htmlIndentLevel st5 + 1\<rparr> else st5)"
    by (auto simp: format_item_def Let_def split: sum.splits)
  from push_line_cases [OF p] obtain ind
    where st3: "st3 = st2\<lparr>formattedLines := formattedLines st2 @ [ind @ trim run]\<rparr>" by blast
  show ?thesis
    unfolding r st3 st2 Let_def
    by (simp add: if_distrib [of inComment] if_distrib [of inVerbatim]
        if_distrib [of inScriptTag] if_distrib [of inStyleTag]
        if_distrib [of insideTwigAttribute] if_distrib [of scriptTagBaseIndent]
        if_distrib [of styleTagBaseIndent] if_distrib [of attributeLines]
        if_distrib [of attributeQuote] if_distrib [of formattedLines])
qed

lemma format_items_flags:
  "format_items cfg st runs = Inr st' \<Longrightarrow>
     inComment st' = inComment st \<and> inVerbatim st' = inVerbatim st
     \<and> inScriptTag st' = inScriptTag st \<and> inStyleTag st' = inStyleTag st
     \<and> insideTwigAttribute st' = insideTwigAttribute st
     \<and> scriptTagBaseIndent st' = scriptTagBaseIndent st
     \<and> styleTagBaseIndent st' = styleTagBaseIndent st
     \<and> attributeLines st' = attributeLines st \<and> attributeQuote st' = attributeQuote st
     \<and> length (formattedLines st') = length (formattedLines st) + length runs"
proof (induction runs arbitrary: st)
  case Nil
  then show ?case by simp
next
  case (Cons run runs)
  from Cons.prems obtain st1 where a: "format_item cfg st run = Inr st1"
    and b: "format_items cfg st1 runs = Inr st'"
    by (auto split: sum.splits)
  from format_item_flags [OF a] Cons.IH [OF b] show ?case by auto
qed


subsection \<open>Depth non-negativity\<close>

text \<open>
  Claim C7. For every configuration and every document, whatever its closing tags, the
  loop over the lines ends without an error in a state whose template depth
  (\<open>twigIndentLevel\<close>) and markup depth (\<open>htmlIndentLevel\<close>) are not negative; since the
  document is arbitrary, so is every state between two lines. From such a state the loop
  over the runs of a line, whatever the runs, again ends without an error and with both
  depths not negative, which covers the states between two runs. The depths are
  integers in the model, and a negative sum of the depths would make \<open>repeat\<close> raise a
  \<open>RangeError\<close>.
\<close>

theorem depths_never_negative:
  "\<exists>st. format_lines cfg initial_state lines = Inr st
      \<and> 0 \<le> twigIndentLevel st \<and> 0 \<le> htmlIndentLevel st
      \<and> (\<forall>runs. \<exists>st'. format_items cfg st runs = Inr st'
            \<and> 0 \<le> twigIndentLevel st' \<and> 0 \<le> htmlIndentLevel st')"
proof -
  from format_lines_depths [OF depths_ok_initial] obtain st
    where run: "format_lines cfg initial_state lines = Inr st" and ok: "depths_ok st"
    by blast
  have "\<exists>st'. format_items cfg st runs = Inr st'
      \<and> 0 \<le> twigIndentLevel st' \<and> 0 \<le> htmlIndentLevel st'" for runs
    using format_items_depths [OF ok, of cfg runs] by (auto simp: depths_ok_def)
  with run ok show ?thesis by (auto simp: depths_ok_def)
qed

subsection \<open>The single-line block\<close>

text \<open>
  The line \<open>{% if x %}y{% endif %}\<close> reaches the splitter, which cuts it into three
  runs; each run is classified on its own.
\<close>

lemma single_line_block_line:
  "exec rx_attr_start ''{% if x %}y{% endif %}'' = None"
  "\<not> test rx_attr_single ''{% if x %}y{% endif %}''"
  "trim ''{% if x %}y{% endif %}'' = ''{% if x %}y{% endif %}''"
  "\<not> includes_str ''{#'' ''{% if x %}y{% endif %}''"
  "\<not> test rx_verbatim ''{% if x %}y{% endif %}''"
  "\<not> isScriptOpening ''{% if x %}y{% endif %}''"
  "\<not> isStyleOpening ''{% if x %}y{% endif %}''"
  "\<not> isScriptClosing ''{% if x %}y{% endif %}''"
  "\<not> isStyleClosing ''{% if x %}y{% endif %}''"
  "splitTwigLine ''{% if x %}y{% endif %}'' = [''{% if x %}'', ''y'', ''{% endif %}'']"
  by code_simp+

lemma item_if_x:
  "trim ''{% if x %}'' = ''{% if x %}''"
  "\<not> isHtmlOpeningTag ''{% if x %}''" "\<not> isHtmlClosingTag ''{% if x %}''"
  "\<not> isTwigInsideAttribute ''{% if x %}''" "\<not> isClosingTag ''{% if x %}''"
  "isOpeningTag ''{% if x %}''" "\<not> isSelfClosingTag ''{% if x %}''"
  "\<not> isSingleLineBlock ''{% if x %}''" "\<not> isMidBlockTag ''{% if x %}''"
  by code_simp+

lemma item_y:
  "trim ''y'' = ''y''"
  "\<not> isHtmlOpeningTag ''y''" "\<not> isHtmlClosingTag ''y''"
  "\<not> isTwigInsideAttribute ''y''" "\<not> isClosingTag ''y''"
  "\<not> isOpeningTag ''y''" "\<not> isMidBlockTag ''y''"
  by code_simp+

lemma item_endif:
  "trim ''{% endif %}'' = ''{% endif %}''"
  "\<not> isHtmlOpeningTag ''{% endif %}''" "\<not> isHtmlClosingTag ''{% endif %}''"
  "\<not> isTwigInsideAttribute ''{% endif %}''" "isClosingTag ''{% endif %}''"
  "\<not> isOpeningTag ''{% endif %}''" "\<not> isMidBlockTag ''{% endif %}''"
  by code_simp+

text \<open>
  Claim C3, as stated, fails: under the default configuration the document
  \<open>{% if x %}y{% endif %}\<close> is formatted to three lines, not one.
\<close>

theorem single_line_block_counterexample:
  "format default_config ''{% if x %}y{% endif %}'' =
     Inr (''{% if x %}'' @ [NL] @ ''    y'' @ [NL] @ ''{% endif %}'')"
  by code_simp

text \<open>
  Claim C3, amended. In any state outside attribute, comment, verbatim, script and style
  regions, with depths that are not negative, the line \<open>{% if x %}y{% endif %}\<close> produces
  three output lines: the opener at the surrounding indent, \<open>y\<close> one level deeper and the
  closer at the surrounding indent again. Nothing but the output changes in the state, so
  the template depth after the line is the template depth before it.
\<close>

theorem single_line_block_three_lines:
  assumes "\<not> insideTwigAttribute st" "\<not> inComment st" "\<not> inVerbatim st"
    "\<not> inScriptTag st" "\<not> inStyleTag st" "0 \<le> twigIndentLevel st" "0 \<le> htmlIndentLevel st"
  shows "format_line cfg st ''{% if x %}y{% endif %}'' =
     Inr (st\<lparr>formattedLines := formattedLines st @
        [indentation cfg (twigIndentLevel st + htmlIndentLevel st) @ ''{% if x %}'',
         indentation cfg (twigIndentLevel st + htmlIndentLevel st + 1) @ ''y'',
         indentation cfg (twigIndentLevel st + htmlIndentLevel st) @ ''{% endif %}'']\<rparr>)"
  using assms
  by (simp add: format_line_def single_line_block_line format_content_def Let_def
      format_item_def item_if_x item_y item_endif shouldDecreaseHtmlIndent_def
      shouldIncreaseHtmlIndent_def push_line_Inr add.commute add.left_commute)

theorem single_line_block_three_lines_witness:
  "\<not> insideTwigAttribute initial_state \<and> \<not> inComment initial_state
   \<and> \<not> inVerbatim initial_state \<and> \<not> inScriptTag initial_state \<and> \<not> inStyleTag initial_state
   \<and> 0 \<le> twigIndentLevel initial_state \<and> 0 \<le> htmlIndentLevel initial_state
   \<and> format_line default_config initial_state ''{% if x %}y{% endif %}'' =
       Inr (initial_state\<lparr>formattedLines := [''{% if x %}'', ''    y'', ''{% endif %}'']\<rparr>)"
proof -
  have h: "\<not> insideTwigAttribute initial_state" "\<not> inComment initial_state"
    "\<not> inVerbatim initial_state" "\<not> inScriptTag initial_state" "\<not> inStyleTag initial_state"
    "0 \<le> twigIndentLevel initial_state" "0 \<le> htmlIndentLevel initial_state"
    by (simp_all add: initial_state_def)
  have e: "initial_state\<lparr>formattedLines := formattedLines initial_state @
        [indentation default_config (twigIndentLevel initial_state + htmlIndentLevel initial_state)
           @ ''{% if x %}'',
         indentation default_config
           (twigIndentLevel initial_state + htmlIndentLevel initial_state + 1) @ ''y'',
         indentation default_config (twigIndentLevel initial_state + htmlIndentLevel initial_state)
           @ ''{% endif %}'']\<rparr>
      = initial_state\<lparr>formattedLines := [''{% if x %}'', ''    y'', ''{% endif %}'']\<rparr>"
    by (simp add: initial_state_def default_indentation)
  show ?thesis
    using h single_line_block_three_lines [OF h, of default_config] unfolding e by blast
qed

subsection \<open>The attribute that spans two lines\<close>

text \<open>The two lines \<open><div class="a {{ b\<close> and \<open>}} c">\<close>, and what they collapse to.\<close>

definition attr_line_1 :: string where
  "attr_line_1 = (''<div class='' @ [CHR 0x22] @ ''a {{ b'')"

definition attr_line_2 :: string where
  "attr_line_2 = (''}} c'' @ [CHR 0x22] @ ''>'')"

definition attr_collapsed :: string where
  "attr_collapsed = (''<div class='' @ [CHR 0x22] @ ''a {{ b }} c'' @ [CHR 0x22] @ ''>'')"

lemma attr_first_line:
  "exec rx_attr_start attr_line_1 \<noteq> None"
  "cap (the (exec rx_attr_start attr_line_1)) 2 = [CHR 0x22]"
  by code_simp+

lemma attr_second_line:
  "even (quoteCount (Some [CHR 0x22]) [attr_line_1, attr_line_2])"
  "collapseTwigAttribute [attr_line_1, attr_line_2] = attr_collapsed"
  by code_simp+

text \<open>
  Claim C4, as stated, fails: the first line \<open><div\<close> of the document has no attribute
  and the second line has no tag start, so no line starts a multi-line attribute. The two
  lines are formatted to the four lines \<open><div\<close>, \<open>class="a\<close>, \<open>{{ b }}\<close> and \<open>c">\<close>.
\<close>

theorem attribute_below_tag_counterexample:
  "format default_config ((''<div'' @ [NL] @ ''  class='' @ [CHR 0x22] @ ''a {{ b }} c'' @ [CHR 0x22] @ ''>'')) =
     Inr ((''<div'' @ [NL] @ ''class='' @ [CHR 0x22] @ ''a'' @ [NL] @ ''{{ b }}'' @ [NL] @ ''c'' @ [CHR 0x22] @ ''>''))"
  by code_simp

text \<open>
  Claim C4, amended. When the tag start, the opening quote and the template-open
  delimiter stand on the same line, as in \<open><div class="a {{ b\<close> followed by \<open>}} c">\<close>, the
  first line starts a multi-line attribute: it is buffered with its quote character and
  nothing is emitted. The second line closes the value, and the buffer is emitted as the
  single line \<open><div class="a {{ b }} c">\<close> at the current indent, with one space before
  \<open>{{\<close> and one after \<open>}}\<close>.
\<close>

theorem attribute_on_tag_line_collapses:
  assumes "\<not> insideTwigAttribute st" "0 \<le> twigIndentLevel st" "0 \<le> htmlIndentLevel st"
  shows "format_line cfg st attr_line_1 =
           Inr (st\<lparr>insideTwigAttribute := True, attributeQuote := Some [CHR 0x22],
                   attributeLines := [attr_line_1]\<rparr>)
       \<and> format_lines cfg st [attr_line_1, attr_line_2] =
           Inr (st\<lparr>formattedLines := formattedLines st @
                  [indentation cfg (twigIndentLevel st + htmlIndentLevel st) @ attr_collapsed],
                  insideTwigAttribute := False, attributeQuote := None, attributeLines := []\<rparr>)"
  using assms attr_first_line
  by (auto simp add: format_line_def attribute_continue_def Let_def attr_second_line
      push_line_Inr)

theorem attribute_on_tag_line_collapses_witness:
  "\<not> insideTwigAttribute initial_state \<and> 0 \<le> twigIndentLevel initial_state
   \<and> 0 \<le> htmlIndentLevel initial_state
   \<and> format_line default_config initial_state attr_line_1 =
       Inr (initial_state\<lparr>insideTwigAttribute := True, attributeQuote := Some [CHR 0x22],
              attributeLines := [attr_line_1]\<rparr>)
   \<and> format_lines default_config initial_state [attr_line_1, attr_line_2] =
       Inr (initial_state\<lparr>formattedLines := [attr_collapsed]\<rparr>)"
proof -
  have h: "\<not> insideTwigAttribute initial_state" "0 \<le> twigIndentLevel initial_state"
    "0 \<le> htmlIndentLevel initial_state"
    by (simp_all add: initial_state_def)
  have e: "initial_state\<lparr>formattedLines := formattedLines initial_state @
        [indentation default_config (twigIndentLevel initial_state + htmlIndentLevel initial_state)
           @ attr_collapsed],
        insideTwigAttribute := False, attributeQuote := None, attributeLines := []\<rparr>
      = initial_state\<lparr>formattedLines := [attr_collapsed]\<rparr>"
    by (simp add: initial_state_def default_indentation)
  show ?thesis
    using h attribute_on_tag_line_collapses [OF h, of default_config] unfolding e by blast
qed

subsection \<open>Mid-block tags\<close>











subsection \<open>Modes\<close>

text \<open>The number of mode flags that are set.\<close>

definition modes_active :: "fstate \<Rightarrow> nat" where
  "modes_active st =
     length (filter id [inComment st, inVerbatim st, inScriptTag st, inStyleTag st,
                        insideTwigAttribute st])"


text \<open>
  Claim C8, as stated, fails: the flags are independent booleans, and a trigger line that
  is processed while another flag is set leaves two of them set. After the lines
  \<open><script>\<close> and \<open>{# foo\<close> both \<open>inScriptTag\<close> and \<open>inComment\<close> are true.
\<close>

theorem comment_inside_script_counterexample:
  "format_lines default_config initial_state [''<script>'', ''{# foo''] =
     Inr (initial_state\<lparr>formattedLines := [''<script>'', ''    {# foo''],
            htmlIndentLevel := 1, inComment := True, inScriptTag := True\<rparr>)"
  by code_simp

text \<open>
  Claim C8, amended. Every format invocation starts with all five flags false, and a line
  that is processed in a state with all five flags false leaves at most one of
  \<open>inComment\<close>, \<open>inVerbatim\<close>, \<open>inScriptTag\<close>, \<open>inStyleTag\<close> and \<open>insideTwigAttribute\<close> true:
  from the normal mode a line enters at most one mode.
\<close>

theorem one_mode_entered_from_normal:
  assumes "modes_active st = 0" and "format_line cfg st line = Inr st'"
  shows "modes_active st' \<le> 1"
proof -
  from assms(1) have f: "\<not> inComment st" "\<not> inVerbatim st" "\<not> inScriptTag st"
    "\<not> inStyleTag st" "\<not> insideTwigAttribute st"
    by (auto simp: modes_active_def split: if_splits)
  show ?thesis
  proof (cases "rule_of st line")
    case AttributeContinue
    with f show ?thesis by (simp add: rule_AttributeContinue)
  next
    case AttributeStart
    from assms(2) f show ?thesis
      by (auto simp: format_line_AttributeStart [OF AttributeStart] modes_active_def)
  next
    case AttributeSingle
    from assms(2) have "push_line cfg (collapseTwigAttribute [line]) st = Inr st'"
      by (simp add: format_line_AttributeSingle [OF AttributeSingle])
    from push_line_cases [OF this] f show ?thesis by (auto simp: modes_active_def)
  next
    case Blank
    from assms(2) f show ?thesis
      by (auto simp: format_line_Blank [OF Blank] modes_active_def split: if_splits)
  next
    case Comment
    from assms(2) f show ?thesis
      by (auto simp: format_line_Comment [OF Comment] comment_line_def modes_active_def
          split: sum.splits if_splits dest!: push_line_cases)
  next
    case Verbatim
    from assms(2) f show ?thesis
      by (auto simp: format_line_Verbatim [OF Verbatim] verbatim_line_def modes_active_def
          split: sum.splits if_splits dest!: push_line_cases)
  next
    case ScriptOpen
    from assms(2) f show ?thesis
      by (auto simp: format_line_ScriptOpen [OF ScriptOpen] script_opening_def modes_active_def
          split: sum.splits dest!: push_line_cases)
  next
    case StyleOpen
    from assms(2) f show ?thesis
      by (auto simp: format_line_StyleOpen [OF StyleOpen] style_opening_def modes_active_def
          split: sum.splits dest!: push_line_cases)
  next
    case ScriptClose
    from assms(2) f show ?thesis
      by (auto simp: format_line_ScriptClose [OF ScriptClose] script_closing_def modes_active_def
          dest!: push_line_cases)
  next
    case StyleClose
    from assms(2) f show ?thesis
      by (auto simp: format_line_StyleClose [OF StyleClose] style_closing_def modes_active_def
          dest!: push_line_cases)
  next
    case ScriptBody
    with f show ?thesis by (simp add: rule_ScriptBody)
  next
    case Normal
    from assms(2) have "format_items cfg st (splitTwigLine line) = Inr st'"
      by (simp add: format_line_Normal [OF Normal])
    from format_items_flags [OF this] f show ?thesis by (simp add: modes_active_def)
  qed
qed

lemma script_tag_line:
  "format_line default_config initial_state ''<script>'' =
     Inr (initial_state\<lparr>formattedLines := [''<script>''], htmlIndentLevel := 1,
            inScriptTag := True\<rparr>)"
  by code_simp

theorem one_mode_entered_from_normal_witness:
  "modes_active initial_state = 0
   \<and> format_line default_config initial_state ''<script>'' =
       Inr (initial_state\<lparr>formattedLines := [''<script>''], htmlIndentLevel := 1,
              inScriptTag := True\<rparr>)
   \<and> modes_active (initial_state\<lparr>formattedLines := [''<script>''], htmlIndentLevel := 1,
              inScriptTag := True\<rparr>) \<le> 1"
proof -
  have h: "modes_active initial_state = 0"
    by (simp add: modes_active_def initial_state_def)
  from one_mode_entered_from_normal [OF h script_tag_line] h script_tag_line
  show ?thesis by blast
qed

subsection \<open>The unterminated attribute\<close>

lemma format_lines_append:
  "format_lines cfg st (xs @ ys) =
     (case format_lines cfg st xs of Inl e \<Rightarrow> Inl e | Inr st' \<Rightarrow> format_lines cfg st' ys)"
  by (induction xs arbitrary: st) (auto split: sum.splits)

lemma format_lines_snoc:
  "format_lines cfg st xs = Inr st1 \<Longrightarrow> format_lines cfg st (xs @ [x]) = format_line cfg st1 x"
  by (simp add: format_lines_append split: sum.splits)

text \<open>What a line that is no part of a multi-line attribute leaves alone.\<close>

lemma format_line_frame:
  assumes "format_line cfg st line = Inr st'"
    and "\<not> insideTwigAttribute st" and "exec rx_attr_start line = None"
  shows "insideTwigAttribute st' = insideTwigAttribute st
       \<and> attributeLines st' = attributeLines st \<and> attributeQuote st' = attributeQuote st"
proof (cases "rule_of st line")
  case AttributeContinue
  with assms show ?thesis by (simp add: rule_AttributeContinue)
next
  case AttributeStart
  with assms show ?thesis by (simp add: rule_AttributeStart)
next
  case AttributeSingle
  from assms(1) have "push_line cfg (collapseTwigAttribute [line]) st = Inr st'"
    by (simp add: format_line_AttributeSingle [OF AttributeSingle])
  from push_line_cases [OF this] show ?thesis by auto
next
  case Blank
  from assms(1) show ?thesis
    by (auto simp: format_line_Blank [OF Blank] split: if_splits)
next
  case Comment
  from assms(1) show ?thesis
    by (auto simp: format_line_Comment [OF Comment] comment_line_def
        split: sum.splits if_splits dest!: push_line_cases)
next
  case Verbatim
  from assms(1) show ?thesis
    by (auto simp: format_line_Verbatim [OF Verbatim] verbatim_line_def
        split: sum.splits if_splits dest!: push_line_cases)
next
  case ScriptOpen
  from assms(1) show ?thesis
    by (auto simp: format_line_ScriptOpen [OF ScriptOpen] script_opening_def
        split: sum.splits dest!: push_line_cases)
next
  case StyleOpen
  from assms(1) show ?thesis
    by (auto simp: format_line_StyleOpen [OF StyleOpen] style_opening_def
        split: sum.splits dest!: push_line_cases)
next
  case ScriptClose
  from assms(1) show ?thesis
    by (auto simp: format_line_ScriptClose [OF ScriptClose] script_closing_def
        dest!: push_line_cases)
next
  case StyleClose
  from assms(1) show ?thesis
    by (auto simp: format_line_StyleClose [OF StyleClose] style_closing_def
        dest!: push_line_cases)
next
  case ScriptBody
  from assms(1) show ?thesis
    by (auto simp: format_line_ScriptBody [OF ScriptBody] script_body_def Let_def
        split: sum.splits if_splits dest!: push_line_cases)
next
  case Normal
  from assms(1) have "format_items cfg st (splitTwigLine line) = Inr st'"
    by (simp add: format_line_Normal [OF Normal])
  from format_items_flags [OF this] show ?thesis by simp
qed

text \<open>
  The lines of the document are the lines before the buffer followed by the buffer, and
  the output is the output of the lines before the buffer.
\<close>

definition buffer_dropped :: "config \<Rightarrow> string list \<Rightarrow> fstate \<Rightarrow> bool" where
  "buffer_dropped cfg lines st =
     (\<exists>before st0. lines = before @ attributeLines st \<and> attributeLines st \<noteq> []
        \<and> format_lines cfg initial_state before = Inr st0 \<and> \<not> insideTwigAttribute st0
        \<and> formattedLines st = formattedLines st0)"

lemma buffer_dropped_step:
  assumes run: "format_lines cfg initial_state lines = Inr st"
    and inv: "insideTwigAttribute st \<longrightarrow> buffer_dropped cfg lines st"
    and step: "format_line cfg st line = Inr st'"
    and inside: "insideTwigAttribute st'"
  shows "buffer_dropped cfg (lines @ [line]) st'"
proof (cases "insideTwigAttribute st")
  case True
  with inv obtain before st0 where b: "lines = before @ attributeLines st"
    "format_lines cfg initial_state before = Inr st0" "\<not> insideTwigAttribute st0"
    "formattedLines st = formattedLines st0"
    by (auto simp: buffer_dropped_def)
  from True step have "attribute_continue cfg st line = Inr st'"
    by (simp add: format_line_def Let_def)
  with inside have "st' = st\<lparr>attributeLines := attributeLines st @ [line]\<rparr>"
    by (auto simp: attribute_continue_def Let_def split: if_splits sum.splits
        dest!: push_line_cases)
  with b show ?thesis
    unfolding buffer_dropped_def
    by (intro exI [of _ before] exI [of _ st0]) simp
next
  case False
  show ?thesis
  proof (cases "exec rx_attr_start line")
    case None
    from format_line_frame [OF step False None] False inside show ?thesis by simp
  next
    case (Some m)
    with False step
    have "st' = st\<lparr>insideTwigAttribute := True, attributeQuote := Some (cap m 2),
        attributeLines := [line]\<rparr>"
      by (simp add: format_line_def Let_def)
    with run False show ?thesis
      unfolding buffer_dropped_def
      by (intro exI [of _ lines] exI [of _ st]) simp
  qed
qed

lemma buffer_dropped_lines:
  "format_lines cfg initial_state lines = Inr st \<Longrightarrow> insideTwigAttribute st \<Longrightarrow>
     buffer_dropped cfg lines st"
proof (induction lines arbitrary: st rule: rev_induct)
  case Nil
  then show ?case by (auto simp: initial_state_def)
next
  case (snoc line lines)
  from format_lines_depths [OF depths_ok_initial, of cfg lines] obtain st1
    where a: "format_lines cfg initial_state lines = Inr st1" by blast
  with snoc.prems(1) have b: "format_line cfg st1 line = Inr st"
    by (simp add: format_lines_snoc)
  from snoc.IH [OF a] have "insideTwigAttribute st1 \<longrightarrow> buffer_dropped cfg lines st1" by simp
  from buffer_dropped_step [OF a this b snoc.prems(2)] show ?case .
qed


text \<open>
  Claim C9. For every configuration and every text, \<open>format\<close> returns a text and no error.
  If the loop ends while a multi-line attribute is still buffered (\<open>insideTwigAttribute\<close>
  is set: the quote count of the buffer has been odd since its first line), the lines of
  the document are the lines before the buffer followed by the buffered lines, and the
  output is the output of the lines before the buffer alone: the buffered lines are
  dropped.
\<close>

theorem unterminated_attribute_dropped:
  "\<exists>st. format_lines cfg initial_state (split_nl text) = Inr st
      \<and> format cfg text = Inr (join [NL] (formattedLines st))
      \<and> (insideTwigAttribute st \<longrightarrow>
           (\<exists>before st0. split_nl text = before @ attributeLines st \<and> attributeLines st \<noteq> []
              \<and> format_lines cfg initial_state before = Inr st0 \<and> \<not> insideTwigAttribute st0
              \<and> formattedLines st = formattedLines st0))"
proof -
  from format_lines_depths [OF depths_ok_initial, of cfg "split_nl text"] obtain st
    where a: "format_lines cfg initial_state (split_nl text) = Inr st" by blast
  then have "format cfg text = Inr (join [NL] (formattedLines st))"
    by (simp add: format_def)
  with a buffer_dropped_lines [OF a] show ?thesis
    unfolding buffer_dropped_def by blast
qed

text \<open>The document \<open>x\<close>, \<open><div class="a {{ b\<close>, \<open>c\<close>, whose attribute is never closed.\<close>

definition unterminated_document :: string where
  "unterminated_document = (''x'' @ [NL] @ ''<div class='' @ [CHR 0x22] @ ''a {{ b'' @ [NL] @ ''c'')"

definition unterminated_state :: fstate where
  "unterminated_state =
     initial_state\<lparr>formattedLines := [''x''], insideTwigAttribute := True,
       attributeQuote := Some [CHR 0x22], attributeLines := [(''<div class='' @ [CHR 0x22] @ ''a {{ b''), ''c'']\<rparr>"

lemma unterminated_run:
  "format_lines default_config initial_state (split_nl unterminated_document)
     = Inr unterminated_state"
  by code_simp

theorem unterminated_attribute_dropped_witness:
  "insideTwigAttribute unterminated_state
   \<and> format_lines default_config initial_state (split_nl unterminated_document)
       = Inr unterminated_state
   \<and> format default_config unterminated_document = Inr ''x''
   \<and> (\<exists>before st0. split_nl unterminated_document = before @ attributeLines unterminated_state
         \<and> attributeLines unterminated_state \<noteq> []
         \<and> format_lines default_config initial_state before = Inr st0
         \<and> \<not> insideTwigAttribute st0
         \<and> formattedLines unterminated_state = formattedLines st0)"
proof -
  have i: "insideTwigAttribute unterminated_state"
    by (simp add: unterminated_state_def)
  have j: "join [NL] (formattedLines unterminated_state) = ''x''"
    by (simp add: unterminated_state_def)
  from unterminated_attribute_dropped [of default_config unterminated_document]
  show ?thesis
    unfolding unterminated_run using i j by auto
qed

subsection \<open>Closing script and style tags\<close>

text \<open>
  Only the rule for an opening script tag writes the saved script depth, and it writes
  the markup depth of the state in which it handles the line; likewise for style.
\<close>

lemma script_base_kept:
  assumes "format_line cfg st line = Inr st'" and "rule_of st line \<noteq> ScriptOpen"
  shows "scriptTagBaseIndent st' = scriptTagBaseIndent st"
proof (cases "rule_of st line")
  case AttributeContinue
  from assms(1) show ?thesis
    by (auto simp: format_line_AttributeContinue [OF AttributeContinue] attribute_continue_def
        Let_def split: if_splits sum.splits dest!: push_line_cases)
next
  case AttributeStart
  from assms(1) show ?thesis
    by (auto simp: format_line_AttributeStart [OF AttributeStart])
next
  case AttributeSingle
  from assms(1) have "push_line cfg (collapseTwigAttribute [line]) st = Inr st'"
    by (simp add: format_line_AttributeSingle [OF AttributeSingle])
  from push_line_cases [OF this] show ?thesis by auto
next
  case Blank
  from assms(1) show ?thesis
    by (auto simp: format_line_Blank [OF Blank] split: if_splits)
next
  case Comment
  from assms(1) show ?thesis
    by (auto simp: format_line_Comment [OF Comment] comment_line_def
        split: sum.splits if_splits dest!: push_line_cases)
next
  case Verbatim
  from assms(1) show ?thesis
    by (auto simp: format_line_Verbatim [OF Verbatim] verbatim_line_def
        split: sum.splits if_splits dest!: push_line_cases)
next
  case ScriptOpen
  with assms(2) show ?thesis by simp
next
  case StyleOpen
  from assms(1) show ?thesis
    by (auto simp: format_line_StyleOpen [OF StyleOpen] style_opening_def
        split: sum.splits dest!: push_line_cases)
next
  case ScriptClose
  from assms(1) show ?thesis
    by (auto simp: format_line_ScriptClose [OF ScriptClose] script_closing_def
        dest!: push_line_cases)
next
  case StyleClose
  from assms(1) show ?thesis
    by (auto simp: format_line_StyleClose [OF StyleClose] style_closing_def
        dest!: push_line_cases)
next
  case ScriptBody
  from assms(1) show ?thesis
    by (auto simp: format_line_ScriptBody [OF ScriptBody] script_body_def Let_def
        split: sum.splits if_splits dest!: push_line_cases)
next
  case Normal
  from assms(1) have "format_items cfg st (splitTwigLine line) = Inr st'"
    by (simp add: format_line_Normal [OF Normal])
  from format_items_flags [OF this] show ?thesis by simp
qed

lemma style_base_kept:
  assumes "format_line cfg st line = Inr st'" and "rule_of st line \<noteq> StyleOpen"
  shows "styleTagBaseIndent st' = styleTagBaseIndent st"
proof (cases "rule_of st line")
  case AttributeContinue
  from assms(1) show ?thesis
    by (auto simp: format_line_AttributeContinue [OF AttributeContinue] attribute_continue_def
        Let_def split: if_splits sum.splits dest!: push_line_cases)
next
  case AttributeStart
  from assms(1) show ?thesis
    by (auto simp: format_line_AttributeStart [OF AttributeStart])
next
  case AttributeSingle
  from assms(1) have "push_line cfg (collapseTwigAttribute [line]) st = Inr st'"
    by (simp add: format_line_AttributeSingle [OF AttributeSingle])
  from push_line_cases [OF this] show ?thesis by auto
next
  case Blank
  from assms(1) show ?thesis
    by (auto simp: format_line_Blank [OF Blank] split: if_splits)
next
  case Comment
  from assms(1) show ?thesis
    by (auto simp: format_line_Comment [OF Comment] comment_line_def
        split: sum.splits if_splits dest!: push_line_cases)
next
  case Verbatim
  from assms(1) show ?thesis
    by (auto simp: format_line_Verbatim [OF Verbatim] verbatim_line_def
        split: sum.splits if_splits dest!: push_line_cases)
next
  case ScriptOpen
  from assms(1) show ?thesis
    by (auto simp: format_line_ScriptOpen [OF ScriptOpen] script_opening_def
        split: sum.splits dest!: push_line_cases)
next
  case StyleOpen
  with assms(2) show ?thesis by simp
next
  case ScriptClose
  from assms(1) show ?thesis
    by (auto simp: format_line_ScriptClose [OF ScriptClose] script_closing_def
        dest!: push_line_cases)
next
  case StyleClose
  from assms(1) show ?thesis
    by (auto simp: format_line_StyleClose [OF StyleClose] style_closing_def
        dest!: push_line_cases)
next
  case ScriptBody
  from assms(1) show ?thesis
    by (auto simp: format_line_ScriptBody [OF ScriptBody] script_body_def Let_def
        split: sum.splits if_splits dest!: push_line_cases)
next
  case Normal
  from assms(1) have "format_items cfg st (splitTwigLine line) = Inr st'"
    by (simp add: format_line_Normal [OF Normal])
  from format_items_flags [OF this] show ?thesis by simp
qed

lemma script_base_saved:
  assumes "format_line cfg st line = Inr st'" and "rule_of st line = ScriptOpen"
  shows "scriptTagBaseIndent st' = htmlIndentLevel st"
  using assms(1)
  by (auto simp: format_line_ScriptOpen [OF assms(2)] script_opening_def
      split: sum.splits dest!: push_line_cases)

lemma style_base_saved:
  assumes "format_line cfg st line = Inr st'" and "rule_of st line = StyleOpen"
  shows "styleTagBaseIndent st' = htmlIndentLevel st"
  using assms(1)
  by (auto simp: format_line_StyleOpen [OF assms(2)] style_opening_def
      split: sum.splits dest!: push_line_cases)

lemma format_line_script_base:
  assumes "format_line cfg st line = Inr st'" and "\<not> isScriptOpening (trim line)"
  shows "scriptTagBaseIndent st' = scriptTagBaseIndent st"
proof -
  from assms(2) have "rule_of st line \<noteq> ScriptOpen" by (simp add: rule_ScriptOpen)
  with assms(1) show ?thesis by (rule script_base_kept)
qed

lemma format_line_style_base:
  assumes "format_line cfg st line = Inr st'" and "\<not> isStyleOpening (trim line)"
  shows "styleTagBaseIndent st' = styleTagBaseIndent st"
proof -
  from assms(2) have "rule_of st line \<noteq> StyleOpen" by (simp add: rule_StyleOpen)
  with assms(1) show ?thesis by (rule style_base_kept)
qed

text \<open>
  The markup depth of the state in which the rule \<open>r\<close> handled a line for the last time
  in a run of the loop over \<open>lines\<close> from the state \<open>st\<close>, and \<open>b\<close> if it handled none.
\<close>

fun saved_depth :: "rule \<Rightarrow> config \<Rightarrow> fstate \<Rightarrow> int \<Rightarrow> string list \<Rightarrow> int" where
  "saved_depth r cfg st b [] = b"
| "saved_depth r cfg st b (line # lines) =
     (case format_line cfg st line of
        Inl e \<Rightarrow> b
      | Inr st' \<Rightarrow>
          saved_depth r cfg st' (if rule_of st line = r then htmlIndentLevel st else b) lines)"

lemma script_base_is_saved_depth:
  "format_lines cfg st lines = Inr st' \<Longrightarrow>
     scriptTagBaseIndent st' = saved_depth ScriptOpen cfg st (scriptTagBaseIndent st) lines"
proof (induction lines arbitrary: st)
  case Nil
  then show ?case by simp
next
  case (Cons line lines)
  from Cons.prems obtain st1 where a: "format_line cfg st line = Inr st1"
    and b: "format_lines cfg st1 lines = Inr st'"
    by (auto split: sum.splits)
  have "scriptTagBaseIndent st1 =
      (if rule_of st line = ScriptOpen then htmlIndentLevel st else scriptTagBaseIndent st)"
    using script_base_kept [OF a] script_base_saved [OF a] by simp
  with Cons.IH [OF b] a show ?case by simp
qed

lemma style_base_is_saved_depth:
  "format_lines cfg st lines = Inr st' \<Longrightarrow>
     styleTagBaseIndent st' = saved_depth StyleOpen cfg st (styleTagBaseIndent st) lines"
proof (induction lines arbitrary: st)
  case Nil
  then show ?case by simp
next
  case (Cons line lines)
  from Cons.prems obtain st1 where a: "format_line cfg st line = Inr st1"
    and b: "format_lines cfg st1 lines = Inr st'"
    by (auto split: sum.splits)
  have "styleTagBaseIndent st1 =
      (if rule_of st line = StyleOpen then htmlIndentLevel st else styleTagBaseIndent st)"
    using style_base_kept [OF a] style_base_saved [OF a] by simp
  with Cons.IH [OF b] a show ?case by simp
qed

lemma format_lines_script_base:
  "format_lines cfg st lines = Inr st' \<Longrightarrow> \<forall>l \<in> set lines. \<not> isScriptOpening (trim l) \<Longrightarrow>
     scriptTagBaseIndent st' = scriptTagBaseIndent st"
proof (induction lines arbitrary: st)
  case Nil
  then show ?case by simp
next
  case (Cons line lines)
  from Cons.prems(1) obtain st1 where a: "format_line cfg st line = Inr st1"
    and b: "format_lines cfg st1 lines = Inr st'"
    by (auto split: sum.splits)
  from Cons.prems(2) have "\<not> isScriptOpening (trim line)" by simp
  from format_line_script_base [OF a this] Cons.IH [OF b] Cons.prems(2) show ?case by simp
qed

lemma format_lines_style_base:
  "format_lines cfg st lines = Inr st' \<Longrightarrow> \<forall>l \<in> set lines. \<not> isStyleOpening (trim l) \<Longrightarrow>
     styleTagBaseIndent st' = styleTagBaseIndent st"
proof (induction lines arbitrary: st)
  case Nil
  then show ?case by simp
next
  case (Cons line lines)
  from Cons.prems(1) obtain st1 where a: "format_line cfg st line = Inr st1"
    and b: "format_lines cfg st1 lines = Inr st'"
    by (auto split: sum.splits)
  from Cons.prems(2) have "\<not> isStyleOpening (trim line)" by simp
  from format_line_style_base [OF a this] Cons.IH [OF b] Cons.prems(2) show ?case by simp
qed

lemma depths_ok_reached:
  "format_lines cfg initial_state lines = Inr st \<Longrightarrow> depths_ok st"
  using format_lines_depths [OF depths_ok_initial, of cfg lines] by auto


text \<open>Documents with a closing tag on a line that another rule takes first.\<close>

definition comment_close_document :: string where
  "comment_close_document = (''<div>'' @ [NL] @ ''{# c'' @ [NL] @ ''</script>'')"

definition comment_close_formatted :: string where
  "comment_close_formatted = (''<div>'' @ [NL] @ ''    {# c'' @ [NL] @ ''    </script>'')"

definition style_open_document :: string where
  "style_open_document = (''<div>'' @ [NL] @ ''<style></script>'' @ [NL] @ ''x'')"

definition style_open_formatted :: string where
  "style_open_formatted = (''<div>'' @ [NL] @ ''    <style></script>'' @ [NL] @ ''        x'')"

definition both_close_document :: string where
  "both_close_document = (''<style>'' @ [NL] @ ''<script>'' @ [NL] @ ''</script></style>'' @ [NL] @ ''x'')"

definition both_close_formatted :: string where
  "both_close_formatted = (''<style>'' @ [NL] @ ''    <script>'' @ [NL] @ ''    </script></style>'' @ [NL] @ ''    x'')"

text \<open>
  Claim C10, as stated, fails: not every line that contains a closing tag is handled by
  the close rule. In \<open>comment_close_document\<close> the line \<open></script>\<close> stands in a comment
  that the line before has opened; no script tag was opened, so the saved script depth is
  zero, but the comment rule emits the line at markup depth one and the depth stays one.
  In \<open>style_open_document\<close> the line \<open><style></script>\<close> is an opening style tag, which
  is tested before the closing script tag: it is emitted at depth one and the depth
  becomes two. In \<open>both_close_document\<close> the line \<open></script></style>\<close> contains a closing
  style tag, and the saved style depth is zero, but the rule for the closing script tag
  takes the line and restores the saved script depth, which is one.
\<close>

theorem closing_tag_counterexample:
  "saved_depth ScriptOpen default_config initial_state 0 [''<div>'', ''{# c''] = 0
   \<and> test rx_script_close ''</script>''
   \<and> format default_config comment_close_document = Inr comment_close_formatted
   \<and> test rx_script_close ''<style></script>''
   \<and> format default_config style_open_document = Inr style_open_formatted
   \<and> saved_depth StyleOpen default_config initial_state 0 [''<style>'', ''<script>''] = 0
   \<and> test rx_style_close ''</script></style>''
   \<and> format default_config both_close_document = Inr both_close_formatted"
  by code_simp

text \<open>
  Claim C10, amended. Take any state that the loop reaches after some lines of a
  document, and a line that reaches the tests for script and style tags (no attribute,
  comment or verbatim rule takes it). If the line contains a closing \<open></script>\<close> tag and
  no opening style tag, which is tested earlier, then, whether or not a script region is
  open, the markup depth becomes the saved script depth, \<open>inScriptTag\<close> is cleared and the
  line is emitted at the template depth plus the saved script depth; the markup depth is
  not decremented by one. The same holds for a closing \<open></style>\<close> tag on a line without
  opening or closing script tag, with the saved style depth. The saved script depth is
  the markup depth at which the last line that the rule for an opening script tag handled
  was emitted, and zero if that rule handled no line, as when no line before is an opening
  script tag; likewise the saved style depth.
\<close>

theorem closing_tag_restores_saved_depth:
  assumes "format_lines cfg initial_state before = Inr st"
    and "reaches_tags st line"
  shows
    "(isScriptClosing (trim line) \<and> \<not> isStyleOpening (trim line) \<longrightarrow>
        format_line cfg st line =
          Inr (st\<lparr>htmlIndentLevel := scriptTagBaseIndent st, inScriptTag := False,
                  formattedLines := formattedLines st @
                    [indentation cfg (twigIndentLevel st + scriptTagBaseIndent st) @ trim line]\<rparr>)
        \<and> ((\<forall>l \<in> set before. \<not> isScriptOpening (trim l)) \<longrightarrow> scriptTagBaseIndent st = 0))
     \<and> (isStyleClosing (trim line) \<and> \<not> isScriptOpening (trim line)
          \<and> \<not> isScriptClosing (trim line) \<longrightarrow>
        format_line cfg st line =
          Inr (st\<lparr>htmlIndentLevel := styleTagBaseIndent st, inStyleTag := False,
                  formattedLines := formattedLines st @
                    [indentation cfg (twigIndentLevel st + styleTagBaseIndent st) @ trim line]\<rparr>)
        \<and> ((\<forall>l \<in> set before. \<not> isStyleOpening (trim l)) \<longrightarrow> styleTagBaseIndent st = 0))
     \<and> scriptTagBaseIndent st = saved_depth ScriptOpen cfg initial_state 0 before
     \<and> styleTagBaseIndent st = saved_depth StyleOpen cfg initial_state 0 before"
proof -
  from depths_ok_reached [OF assms(1)] have ok: "0 \<le> twigIndentLevel st"
    "0 \<le> scriptTagBaseIndent st" "0 \<le> styleTagBaseIndent st"
    by (simp_all add: depths_ok_def)
  have a: "format_line cfg st line =
          Inr (st\<lparr>htmlIndentLevel := scriptTagBaseIndent st, inScriptTag := False,
                  formattedLines := formattedLines st @
                    [indentation cfg (twigIndentLevel st + scriptTagBaseIndent st) @ trim line]\<rparr>)"
    if "isScriptClosing (trim line)" "\<not> isStyleOpening (trim line)"
  proof -
    from that have "\<not> isScriptOpening (trim line)"
      by (simp add: isScriptOpening_def isScriptClosing_def)
    with that assms(2) have "rule_of st line = ScriptClose" by (simp add: rule_ScriptClose)
    from format_line_ScriptClose [OF this] ok show ?thesis
      by (simp add: script_closing_def push_line_Inr)
  qed
  have b: "format_line cfg st line =
          Inr (st\<lparr>htmlIndentLevel := styleTagBaseIndent st, inStyleTag := False,
                  formattedLines := formattedLines st @
                    [indentation cfg (twigIndentLevel st + styleTagBaseIndent st) @ trim line]\<rparr>)"
    if "isStyleClosing (trim line)" "\<not> isScriptOpening (trim line)"
      "\<not> isScriptClosing (trim line)"
  proof -
    from that have "\<not> isStyleOpening (trim line)"
      by (simp add: isStyleOpening_def isStyleClosing_def)
    with that assms(2) have "rule_of st line = StyleClose" by (simp add: rule_StyleClose)
    from format_line_StyleClose [OF this] ok show ?thesis
      by (simp add: style_closing_def push_line_Inr)
  qed
  have c: "scriptTagBaseIndent st = 0" if "\<forall>l \<in> set before. \<not> isScriptOpening (trim l)"
    using format_lines_script_base [OF assms(1) that] by (simp add: initial_state_def)
  have d: "styleTagBaseIndent st = 0" if "\<forall>l \<in> set before. \<not> isStyleOpening (trim l)"
    using format_lines_style_base [OF assms(1) that] by (simp add: initial_state_def)
  have e: "scriptTagBaseIndent st = saved_depth ScriptOpen cfg initial_state 0 before"
    using script_base_is_saved_depth [OF assms(1)] by (simp add: initial_state_def)
  have f: "styleTagBaseIndent st = saved_depth StyleOpen cfg initial_state 0 before"
    using style_base_is_saved_depth [OF assms(1)] by (simp add: initial_state_def)
  from a b c d e f show ?thesis by blast
qed

text \<open>The state after the lines \<open><div>\<close> and \<open><p>\<close>: markup depth two, no region open.\<close>

definition two_tags_open :: fstate where
  "two_tags_open =
     initial_state\<lparr>formattedLines := [''<div>'', ''    <p>''], htmlIndentLevel := 2\<rparr>"

lemma two_tags_open_run:
  "format_lines default_config initial_state [''<div>'', ''<p>''] = Inr two_tags_open"
  by code_simp

lemma two_tags_open_facts:
  "reaches_tags two_tags_open ''</script>''"
  "isScriptClosing (trim ''</script>'')" "\<not> isStyleOpening (trim ''</script>'')"
  "reaches_tags two_tags_open ''</style>''"
  "isStyleClosing (trim ''</style>'')" "\<not> isScriptOpening (trim ''</style>'')"
  "\<not> isScriptClosing (trim ''</style>'')"
  "\<not> isScriptOpening (trim ''<div>'')" "\<not> isScriptOpening (trim ''<p>'')"
  "\<not> isStyleOpening (trim ''<div>'')" "\<not> isStyleOpening (trim ''<p>'')"
  "trim ''</script>'' = ''</script>''" "trim ''</style>'' = ''</style>''"
  by code_simp+

text \<open>
  The state after the lines \<open><div>\<close>, \<open><script>\<close> and \<open>f();\<close>: the script tag was opened
  at markup depth one.
\<close>

definition script_region_open :: fstate where
  "script_region_open =
     initial_state\<lparr>formattedLines := [''<div>'', ''    <script>'', ''        f();''],
       htmlIndentLevel := 2, inScriptTag := True, scriptTagBaseIndent := 1\<rparr>"

lemma script_region_open_facts:
  "format_lines default_config initial_state [''<div>'', ''<script>'', ''f();'']
     = Inr script_region_open"
  "reaches_tags script_region_open ''</script>''"
  "saved_depth ScriptOpen default_config initial_state 0 [''<div>'', ''<script>'', ''f();''] = 1"
  by code_simp+

theorem closing_tag_restores_saved_depth_witness:
  "format_lines default_config initial_state [''<div>'', ''<p>''] = Inr two_tags_open
   \<and> reaches_tags two_tags_open ''</script>''
   \<and> isScriptClosing (trim ''</script>'') \<and> \<not> isStyleOpening (trim ''</script>'')
   \<and> \<not> isScriptOpening (trim ''<div>'') \<and> \<not> isScriptOpening (trim ''<p>'')
   \<and> \<not> inScriptTag two_tags_open
   \<and> format_line default_config two_tags_open ''</script>'' =
       Inr (initial_state\<lparr>formattedLines := [''<div>'', ''    <p>'', ''</script>'']\<rparr>)
   \<and> reaches_tags two_tags_open ''</style>''
   \<and> isStyleClosing (trim ''</style>'') \<and> \<not> isScriptOpening (trim ''</style>'')
   \<and> \<not> isScriptClosing (trim ''</style>'')
   \<and> \<not> isStyleOpening (trim ''<div>'') \<and> \<not> isStyleOpening (trim ''<p>'')
   \<and> \<not> inStyleTag two_tags_open
   \<and> format_line default_config two_tags_open ''</style>'' =
       Inr (initial_state\<lparr>formattedLines := [''<div>'', ''    <p>'', ''</style>'']\<rparr>)
   \<and> format_lines default_config initial_state [''<div>'', ''<script>'', ''f();'']
       = Inr script_region_open
   \<and> reaches_tags script_region_open ''</script>''
   \<and> saved_depth ScriptOpen default_config initial_state 0 [''<div>'', ''<script>'', ''f();'']
       = 1
   \<and> format_line default_config script_region_open ''</script>'' =
       Inr (script_region_open\<lparr>htmlIndentLevel := 1, inScriptTag := False,
              formattedLines :=
                [''<div>'', ''    <script>'', ''        f();'', ''    </script>'']\<rparr>)"
proof -
  note f = two_tags_open_facts
  note g = script_region_open_facts
  have s: "scriptTagBaseIndent two_tags_open = 0" "styleTagBaseIndent two_tags_open = 0"
    "\<not> inScriptTag two_tags_open" "\<not> inStyleTag two_tags_open"
    by (simp_all add: two_tags_open_def initial_state_def)
  have e1: "two_tags_open\<lparr>htmlIndentLevel := scriptTagBaseIndent two_tags_open,
        inScriptTag := False,
        formattedLines := formattedLines two_tags_open @
          [indentation default_config
             (twigIndentLevel two_tags_open + scriptTagBaseIndent two_tags_open)
           @ trim ''</script>'']\<rparr>
      = initial_state\<lparr>formattedLines := [''<div>'', ''    <p>'', ''</script>'']\<rparr>"
    by (simp add: f two_tags_open_def initial_state_def default_indentation)
  have e2: "two_tags_open\<lparr>htmlIndentLevel := styleTagBaseIndent two_tags_open,
        inStyleTag := False,
        formattedLines := formattedLines two_tags_open @
          [indentation default_config
             (twigIndentLevel two_tags_open + styleTagBaseIndent two_tags_open)
           @ trim ''</style>'']\<rparr>
      = initial_state\<lparr>formattedLines := [''<div>'', ''    <p>'', ''</style>'']\<rparr>"
    by (simp add: f two_tags_open_def initial_state_def default_indentation)
  from closing_tag_restores_saved_depth [OF two_tags_open_run f(1)] f s
  have a: "format_line default_config two_tags_open ''</script>'' =
       Inr (initial_state\<lparr>formattedLines := [''<div>'', ''    <p>'', ''</script>'']\<rparr>)"
    unfolding e1 by blast
  from closing_tag_restores_saved_depth [OF two_tags_open_run f(4)] f s
  have b: "format_line default_config two_tags_open ''</style>'' =
       Inr (initial_state\<lparr>formattedLines := [''<div>'', ''    <p>'', ''</style>'']\<rparr>)"
    unfolding e2 by blast
  from closing_tag_restores_saved_depth [OF g(1) g(2)] f(2,3)
  have c1: "format_line default_config script_region_open ''</script>'' =
          Inr (script_region_open\<lparr>htmlIndentLevel := scriptTagBaseIndent script_region_open,
                 inScriptTag := False,
                 formattedLines := formattedLines script_region_open @
                   [indentation default_config
                      (twigIndentLevel script_region_open
                       + scriptTagBaseIndent script_region_open) @ trim ''</script>'']\<rparr>)"
    and c2: "scriptTagBaseIndent script_region_open =
        saved_depth ScriptOpen default_config initial_state 0 [''<div>'', ''<script>'', ''f();'']"
    by blast+
  from c2 g(3) have c3: "scriptTagBaseIndent script_region_open = 1" by simp
  have c4: "twigIndentLevel script_region_open = 0"
    "formattedLines script_region_open = [''<div>'', ''    <script>'', ''        f();'']"
    by (simp_all add: script_region_open_def initial_state_def)
  from c1 have c: "format_line default_config script_region_open ''</script>'' =
       Inr (script_region_open\<lparr>htmlIndentLevel := 1, inScriptTag := False,
              formattedLines :=
                [''<div>'', ''    <script>'', ''        f();'', ''    </script>'']\<rparr>)"
    by (simp add: c3 c4 f(12) default_indentation)
  from a b c f s two_tags_open_run g show ?thesis by blast
qed

subsection \<open>The number of output lines\<close>

lemma trim_empty: "trim s = [] \<longleftrightarrow> (\<forall>c \<in> set s. is_space c)"
proof
  assume "trim s = []"
  then have "dropWhile is_space (rev (dropWhile is_space s)) = []"
    by (simp add: trim_def)
  then have a: "\<forall>c \<in> set (dropWhile is_space s). is_space c"
    by (simp add: dropWhile_eq_Nil_conv)
  have "dropWhile is_space s = []"
  proof (rule ccontr)
    assume n: "dropWhile is_space s \<noteq> []"
    then have "\<not> is_space (hd (dropWhile is_space s))" by (rule hd_dropWhile)
    moreover from n have "hd (dropWhile is_space s) \<in> set (dropWhile is_space s)" by simp
    ultimately show False using a by blast
  qed
  then show "\<forall>c \<in> set s. is_space c"
    by (simp add: dropWhile_eq_Nil_conv)
next
  assume "\<forall>c \<in> set s. is_space c"
  then show "trim s = []"
    by (auto simp: trim_def dest: set_dropWhileD)
qed

lemma take_drop_rejoin: "take n (drop j l) @ drop (j + n) l = drop j l"
proof -
  have "take n (drop j l) @ drop n (drop j l) = drop j l"
    by (rule append_take_drop_id)
  then show ?thesis by (simp add: add.commute)
qed

lemma concat_split_loop: "concat (split_loop line i) = drop i line"
proof (induction line i rule: split_loop.induct)
  case (1 line lastIndex)
  show ?case
  proof (cases "exec_from rx_twig_span lastIndex (drop lastIndex line)")
    case None
    then show ?thesis by (subst split_loop.simps) simp
  next
    case (Some m)
    from exec_from_bound [OF Some]
    have b: "lastIndex \<le> m_index m" by simp
    have "concat (split_loop line lastIndex) =
        take (m_index m - lastIndex) (drop lastIndex line) @ matched m line
        @ concat (split_loop line (m_index m + m_len m))"
      using Some by (subst split_loop.simps) simp
    also have "\<dots> = take (m_index m - lastIndex) (drop lastIndex line)
        @ (take (m_len m) (drop (m_index m) line) @ drop (m_index m + m_len m) line)"
      using "1.IH" [OF Some] by (simp add: matched_def)
    also have "\<dots> = take (m_index m - lastIndex) (drop lastIndex line)
        @ drop (lastIndex + (m_index m - lastIndex)) line"
      using b by (simp only: take_drop_rejoin le_add_diff_inverse)
    also have "\<dots> = drop lastIndex line"
      by (rule take_drop_rejoin)
    finally show ?thesis .
  qed
qed

lemma splitTwigLine_nonempty:
  assumes "trim line \<noteq> []"
  shows "splitTwigLine line \<noteq> []"
proof
  assume "splitTwigLine line = []"
  then have "\<forall>p \<in> set (split_loop line 0). trim p = []"
    by (simp add: splitTwigLine_def filter_empty_conv)
  then have "\<forall>p \<in> set (split_loop line 0). \<forall>c \<in> set p. is_space c"
    by (simp add: trim_empty)
  then have "\<forall>c \<in> set (concat (split_loop line 0)). is_space c"
    by auto
  then have "trim line = []"
    by (simp add: concat_split_loop trim_empty)
  with assms show False by simp
qed

text \<open>The number of output lines that a line adds in a state.\<close>

definition emitted :: "config \<Rightarrow> fstate \<Rightarrow> string \<Rightarrow> nat" where
  "emitted cfg st line =
     (case rule_of st line of
        AttributeContinue \<Rightarrow>
          (if even (quoteCount (attributeQuote st) (attributeLines st @ [line])) then 1 else 0)
      | AttributeStart \<Rightarrow> 0
      | Blank \<Rightarrow> (if preserveNewLines cfg then 1 else 0)
      | Normal \<Rightarrow> length (splitTwigLine line)
      | _ \<Rightarrow> 1)"

lemma format_line_emitted:
  assumes "format_line cfg st line = Inr st'"
  shows "length (formattedLines st') = length (formattedLines st) + emitted cfg st line"
proof (cases "rule_of st line")
  case AttributeContinue
  with assms show ?thesis
    by (auto simp: format_line_AttributeContinue [OF AttributeContinue] attribute_continue_def
        emitted_def Let_def split: if_splits sum.splits dest!: push_line_cases)
next
  case AttributeStart
  with assms show ?thesis
    by (auto simp: format_line_AttributeStart [OF AttributeStart] emitted_def)
next
  case AttributeSingle
  with assms show ?thesis
    by (auto simp: format_line_AttributeSingle [OF AttributeSingle] emitted_def
        dest!: push_line_cases)
next
  case Blank
  with assms show ?thesis
    by (auto simp: format_line_Blank [OF Blank] emitted_def split: if_splits)
next
  case Comment
  with assms show ?thesis
    by (auto simp: format_line_Comment [OF Comment] comment_line_def emitted_def
        split: sum.splits if_splits dest!: push_line_cases)
next
  case Verbatim
  with assms show ?thesis
    by (auto simp: format_line_Verbatim [OF Verbatim] verbatim_line_def emitted_def
        split: sum.splits if_splits dest!: push_line_cases)
next
  case ScriptOpen
  with assms show ?thesis
    by (auto simp: format_line_ScriptOpen [OF ScriptOpen] script_opening_def emitted_def
        split: sum.splits dest!: push_line_cases)
next
  case StyleOpen
  with assms show ?thesis
    by (auto simp: format_line_StyleOpen [OF StyleOpen] style_opening_def emitted_def
        split: sum.splits dest!: push_line_cases)
next
  case ScriptClose
  with assms show ?thesis
    by (auto simp: format_line_ScriptClose [OF ScriptClose] script_closing_def emitted_def
        dest!: push_line_cases)
next
  case StyleClose
  with assms show ?thesis
    by (auto simp: format_line_StyleClose [OF StyleClose] style_closing_def emitted_def
        dest!: push_line_cases)
next
  case ScriptBody
  with assms show ?thesis
    by (auto simp: format_line_ScriptBody [OF ScriptBody] script_body_def Let_def emitted_def
        split: sum.splits if_splits dest!: push_line_cases)
next
  case Normal
  from assms have "format_items cfg st (splitTwigLine line) = Inr st'"
    by (simp add: format_line_Normal [OF Normal])
  from format_items_flags [OF this] Normal show ?thesis by (simp add: emitted_def)
qed

lemma emitted_bounds:
  assumes "preserveNewLines cfg" "\<not> insideTwigAttribute st" "exec rx_attr_start line = None"
  shows "1 \<le> emitted cfg st line"
    and "length (splitTwigLine line) \<le> 1 \<Longrightarrow> emitted cfg st line = 1"
proof -
  have n: "1 \<le> length (splitTwigLine line)" if "rule_of st line = Normal"
  proof -
    from that have "trim line \<noteq> []"
      by (simp add: rule_Normal reaches_tags_def reaches_content_def)
    from splitTwigLine_nonempty [OF this] show ?thesis
      by (cases "splitTwigLine line") simp_all
  qed
  from assms n show "1 \<le> emitted cfg st line"
    by (cases "rule_of st line")
      (simp_all add: emitted_def rule_AttributeContinue rule_AttributeStart)
  from assms n show "emitted cfg st line = 1" if "length (splitTwigLine line) \<le> 1"
    using that
    by (cases "rule_of st line")
      (simp_all add: emitted_def rule_AttributeContinue rule_AttributeStart)
qed

lemma output_count_from:
  assumes "preserveNewLines cfg"
  shows "depths_ok st \<Longrightarrow> \<not> insideTwigAttribute st \<Longrightarrow>
     \<forall>l \<in> set lines. exec rx_attr_start l = None \<Longrightarrow>
     \<exists>st'. format_lines cfg st lines = Inr st' \<and> \<not> insideTwigAttribute st'
        \<and> length (formattedLines st) + length lines \<le> length (formattedLines st')
        \<and> ((\<forall>l \<in> set lines. length (splitTwigLine l) \<le> 1) \<longrightarrow>
             length (formattedLines st') = length (formattedLines st) + length lines)"
proof (induction lines arbitrary: st)
  case Nil
  then show ?case by simp
next
  case (Cons line lines)
  from Cons.prems(3) have none: "exec rx_attr_start line = None"
    and rest: "\<forall>l \<in> set lines. exec rx_attr_start l = None" by simp_all
  from format_line_depths [OF Cons.prems(1)] obtain st1
    where a: "format_line cfg st line = Inr st1" and ok: "depths_ok st1" by blast
  from format_line_frame [OF a Cons.prems(2) none] Cons.prems(2)
  have ni: "\<not> insideTwigAttribute st1" by simp
  from Cons.IH [OF ok ni rest] obtain st' where
    b: "format_lines cfg st1 lines = Inr st'" "\<not> insideTwigAttribute st'"
      "length (formattedLines st1) + length lines \<le> length (formattedLines st')"
      "(\<forall>l \<in> set lines. length (splitTwigLine l) \<le> 1) \<longrightarrow>
         length (formattedLines st') = length (formattedLines st1) + length lines"
    by blast
  note e = format_line_emitted [OF a]
  note eb = emitted_bounds [OF assms Cons.prems(2) none]
  have "format_lines cfg st (line # lines) = Inr st'" using a b(1) by simp
  moreover have "length (formattedLines st) + length (line # lines) \<le> length (formattedLines st')"
    using e eb(1) b(3) by simp
  moreover have "length (formattedLines st') = length (formattedLines st) + length (line # lines)"
    if "\<forall>l \<in> set (line # lines). length (splitTwigLine l) \<le> 1"
    using that e eb(2) b(4) by simp
  ultimately show ?case using b(2) by blast
qed


text \<open>
  Claim C2, as stated, fails: under the default configuration the one-line document
  \<open><p>{{ i }}</p>\<close>, which has no attribute to collapse, is formatted to three lines.
\<close>

theorem line_count_counterexample:
  "format default_config ''<p>{{ i }}</p>'' =
     Inr (''<p>'' @ [NL] @ ''    {{ i }}'' @ [NL] @ ''</p>'')"
  by code_simp

text \<open>
  Claim C2, amended. With \<open>preserveNewLines\<close> set, a line that is no part of a multi-line
  attribute adds exactly one output line, unless it is split into runs, where it adds one
  output line per run and at least one (\<open>format_line_emitted\<close>, \<open>emitted_bounds\<close>). So
  for a document in which no line starts a multi-line attribute the output has at least
  as many lines as the input, and exactly as many if no line has more than one run.
\<close>

theorem output_line_count:
  assumes "preserveNewLines cfg" and "\<forall>l \<in> set lines. exec rx_attr_start l = None"
  shows "\<exists>st. format_lines cfg initial_state lines = Inr st
      \<and> length lines \<le> length (formattedLines st)
      \<and> ((\<forall>l \<in> set lines. length (splitTwigLine l) \<le> 1) \<longrightarrow>
           length (formattedLines st) = length lines)"
proof -
  have "\<not> insideTwigAttribute initial_state" "formattedLines initial_state = []"
    by (simp_all add: initial_state_def)
  with output_count_from [OF assms(1) depths_ok_initial _ assms(2)] show ?thesis
    by auto
qed

lemma simple_block_lines:
  "exec rx_attr_start ''{% if x %}'' = None" "exec rx_attr_start ''hello'' = None"
  "exec rx_attr_start ''{% endif %}'' = None"
  "length (splitTwigLine ''{% if x %}'') \<le> 1" "length (splitTwigLine ''hello'') \<le> 1"
  "length (splitTwigLine ''{% endif %}'') \<le> 1"
  "preserveNewLines default_config"
  by code_simp+

theorem output_line_count_witness:
  "preserveNewLines default_config
   \<and> exec rx_attr_start ''{% if x %}'' = None \<and> exec rx_attr_start ''hello'' = None
   \<and> exec rx_attr_start ''{% endif %}'' = None
   \<and> length (splitTwigLine ''{% if x %}'') \<le> 1 \<and> length (splitTwigLine ''hello'') \<le> 1
   \<and> length (splitTwigLine ''{% endif %}'') \<le> 1
   \<and> (\<exists>st. format_lines default_config initial_state [''{% if x %}'', ''hello'', ''{% endif %}'']
              = Inr st
         \<and> length (formattedLines st) = 3)"
proof -
  note f = simple_block_lines
  have a: "\<forall>l \<in> set [''{% if x %}'', ''hello'', ''{% endif %}'']. exec rx_attr_start l = None"
    using f by simp
  have b: "\<forall>l \<in> set [''{% if x %}'', ''hello'', ''{% endif %}'']. length (splitTwigLine l) \<le> 1"
    using f by simp
  from output_line_count [OF f(7) a] b
  have "\<exists>st. format_lines default_config initial_state [''{% if x %}'', ''hello'', ''{% endif %}'']
              = Inr st
         \<and> length (formattedLines st) = 3"
    by auto
  with f show ?thesis by blast
qed

subsection \<open>Braces in script and style regions\<close>

text \<open>A state inside a script or style element, outside attribute, comment and verbatim.\<close>

definition in_script_body :: "fstate \<Rightarrow> bool" where
  "in_script_body st =
     (\<not> insideTwigAttribute st \<and> \<not> inComment st \<and> \<not> inVerbatim st
      \<and> (inScriptTag st \<or> inStyleTag st))"

text \<open>A line that no rule before the rule for script and style bodies takes.\<close>

definition script_body_line :: "string \<Rightarrow> bool" where
  "script_body_line line =
     (exec rx_attr_start line = None \<and> \<not> test rx_attr_single line \<and> trim line \<noteq> []
      \<and> \<not> includes_str ''{#'' (trim line) \<and> \<not> test rx_verbatim (trim line)
      \<and> \<not> isScriptOpening (trim line) \<and> \<not> isStyleOpening (trim line)
      \<and> \<not> isScriptClosing (trim line) \<and> \<not> isStyleClosing (trim line))"

text \<open>The markup depth at which a script line is emitted, and the depth after it.\<close>

definition emit_depth :: "int \<Rightarrow> string \<Rightarrow> int" where
  "emit_depth h line =
     (if netChange (trim line) < 0 then max 0 (h + netChange (trim line)) else h)"

definition depth_after :: "int \<Rightarrow> string \<Rightarrow> int" where
  "depth_after h line =
     (if netChange (trim line) > 0 then h + netChange (trim line) else emit_depth h line)"

lemma script_body_rule:
  "in_script_body st \<Longrightarrow> script_body_line line \<Longrightarrow> rule_of st line = ScriptBody"
  by (simp add: in_script_body_def script_body_line_def rule_ScriptBody reaches_tags_def
      reaches_content_def)

lemma script_body_step:
  assumes "in_script_body st" "script_body_line line"
    "0 \<le> twigIndentLevel st" "0 \<le> htmlIndentLevel st"
  shows "format_line cfg st line =
     Inr (st\<lparr>htmlIndentLevel := depth_after (htmlIndentLevel st) line,
             formattedLines := formattedLines st @
               [indentation cfg (twigIndentLevel st + emit_depth (htmlIndentLevel st) line)
                @ trim line]\<rparr>)"
proof -
  note r = format_line_ScriptBody [OF script_body_rule [OF assms(1,2)]]
  show ?thesis
  proof (cases "netChange (trim line) < 0")
    case True
    with assms(3,4) show ?thesis
      by (simp add: r script_body_def Let_def push_line_Inr emit_depth_def depth_after_def)
  next
    case False
    with assms(3,4) show ?thesis
      by (simp add: r script_body_def Let_def push_line_Inr emit_depth_def depth_after_def)
  qed
qed

lemma emit_depth_nonneg: "0 \<le> h \<Longrightarrow> 0 \<le> emit_depth h line"
  by (simp add: emit_depth_def)

lemma depth_after_nonneg: "0 \<le> h \<Longrightarrow> 0 \<le> depth_after h line"
  by (simp add: depth_after_def emit_depth_def)

lemma script_body_run:
  "in_script_body st \<Longrightarrow> 0 \<le> twigIndentLevel st \<Longrightarrow> 0 \<le> htmlIndentLevel st \<Longrightarrow>
   \<forall>l \<in> set lines. script_body_line l \<Longrightarrow>
   \<exists>st' out. format_lines cfg st lines = Inr st' \<and> in_script_body st'
      \<and> twigIndentLevel st' = twigIndentLevel st \<and> 0 \<le> htmlIndentLevel st'
      \<and> formattedLines st' = formattedLines st @ out \<and> length out = length lines"
proof (induction lines arbitrary: st)
  case Nil
  then show ?case by simp
next
  case (Cons line lines)
  from Cons.prems(4) have l: "script_body_line line"
    and ls: "\<forall>l \<in> set lines. script_body_line l" by simp_all
  define st1 where "st1 = st\<lparr>htmlIndentLevel := depth_after (htmlIndentLevel st) line,
             formattedLines := formattedLines st @
               [indentation cfg (twigIndentLevel st + emit_depth (htmlIndentLevel st) line)
                @ trim line]\<rparr>"
  from script_body_step [OF Cons.prems(1) l Cons.prems(2,3)]
  have a: "format_line cfg st line = Inr st1" by (simp add: st1_def)
  have b: "in_script_body st1" "0 \<le> twigIndentLevel st1" "0 \<le> htmlIndentLevel st1"
    using Cons.prems(1,2,3) by (simp_all add: st1_def in_script_body_def depth_after_nonneg)
  from Cons.IH [OF b ls] obtain st' out where
    c: "format_lines cfg st1 lines = Inr st'" "in_script_body st'"
      "twigIndentLevel st' = twigIndentLevel st1" "0 \<le> htmlIndentLevel st'"
      "formattedLines st' = formattedLines st1 @ out" "length out = length lines"
    by blast
  have "format_lines cfg st (line # lines) = Inr st'" using a c(1) by simp
  moreover have "formattedLines st' = formattedLines st @
      ((indentation cfg (twigIndentLevel st + emit_depth (htmlIndentLevel st) line) @ trim line)
       # out)"
    using c(5) by (simp add: st1_def)
  moreover have "twigIndentLevel st' = twigIndentLevel st" using c(3) by (simp add: st1_def)
  ultimately show ?case using c(2,4,6)
    by (intro exI [of _ st'] exI [of _ "(indentation cfg (twigIndentLevel st
          + emit_depth (htmlIndentLevel st) line) @ trim line) # out"]) simp
qed


text \<open>
  Claim C5, as stated, fails in its consequence: a line with a closing brace whose net
  delta is not negative is not dedented. In the balanced script body \<open>if (x) {\<close>, \<open>a\<close>,
  \<open>} else {\<close>, \<open>b\<close>, \<open>}\<close> the line \<open>} else {\<close> closes the block that \<open>if (x) {\<close> opened, and
  is emitted two levels deep while \<open>if (x) {\<close> is emitted one level deep.
\<close>

theorem else_line_counterexample:
  "format default_config ((''<script>'' @ [NL] @ ''if (x) {'' @ [NL] @ ''a'' @ [NL] @ ''} else {'' @ [NL] @ ''b'' @ [NL] @ ''}'' @ [NL] @ ''</script>'')) =
     Inr ((''<script>'' @ [NL] @ ''    if (x) {'' @ [NL] @ ''        a'' @ [NL] @ ''        } else {'' @ [NL] @ ''        b'' @ [NL] @ ''    }'' @ [NL] @ ''</script>''))"
  by code_simp

text \<open>
  Claim C5, amended. A line inside a script or style region that reaches the rule for
  script and style bodies is emitted at the markup depth \<open>emit_depth\<close>: the depth before
  the line if its net delta is not negative, and that depth plus the delta, clamped at
  zero, if it is negative; the markup depth after the line is \<open>depth_after\<close>, which adds
  a positive delta only after the emission. Consequently, when a line leaves the markup
  depth above its value \<open>d\<close> before that line, the following lines keep it above \<open>d\<close>, and a
  later line brings it back to \<open>d\<close>, then that closing line is emitted at the same indent
  as the opening line. (A line with a closing brace and a net delta of zero or more
  keeps the indent of a body line.)
\<close>

theorem brace_delta_indent:
  assumes body: "in_script_body st" "0 \<le> twigIndentLevel st" "0 \<le> htmlIndentLevel st"
    and lines: "\<forall>l \<in> set (opener # inner @ [closer]). script_body_line l"
  shows "format_line cfg st opener =
           Inr (st\<lparr>htmlIndentLevel := depth_after (htmlIndentLevel st) opener,
                   formattedLines := formattedLines st @
                     [indentation cfg (twigIndentLevel st + emit_depth (htmlIndentLevel st) opener)
                      @ trim opener]\<rparr>)
       \<and> ((\<forall>k \<le> length inner. \<forall>sk. format_lines cfg st (opener # take k inner) = Inr sk
               \<longrightarrow> htmlIndentLevel st < htmlIndentLevel sk)
            \<and> (\<forall>st'. format_lines cfg st (opener # inner @ [closer]) = Inr st'
               \<longrightarrow> htmlIndentLevel st' = htmlIndentLevel st)
          \<longrightarrow> (\<exists>st' mid. format_lines cfg st (opener # inner @ [closer]) = Inr st'
                \<and> length mid = length inner
                \<and> formattedLines st' = formattedLines st
                    @ [indentation cfg (twigIndentLevel st + htmlIndentLevel st) @ trim opener]
                    @ mid
                    @ [indentation cfg (twigIndentLevel st + htmlIndentLevel st) @ trim closer]))"
proof (intro conjI impI)
  from lines have lo: "script_body_line opener" by simp
  from script_body_step [OF body(1) lo body(2,3)]
  show "format_line cfg st opener =
           Inr (st\<lparr>htmlIndentLevel := depth_after (htmlIndentLevel st) opener,
                   formattedLines := formattedLines st @
                     [indentation cfg (twigIndentLevel st + emit_depth (htmlIndentLevel st) opener)
                      @ trim opener]\<rparr>)" .
next
  assume hyp: "(\<forall>k \<le> length inner. \<forall>sk. format_lines cfg st (opener # take k inner) = Inr sk
               \<longrightarrow> htmlIndentLevel st < htmlIndentLevel sk)
            \<and> (\<forall>st'. format_lines cfg st (opener # inner @ [closer]) = Inr st'
               \<longrightarrow> htmlIndentLevel st' = htmlIndentLevel st)"
  then have deeper: "\<forall>k \<le> length inner. \<forall>sk. format_lines cfg st (opener # take k inner) = Inr sk
          \<longrightarrow> htmlIndentLevel st < htmlIndentLevel sk"
    and level: "\<forall>st'. format_lines cfg st (opener # inner @ [closer]) = Inr st'
          \<longrightarrow> htmlIndentLevel st' = htmlIndentLevel st"
    by blast+

  from lines have lo: "script_body_line opener" and li: "\<forall>l \<in> set inner. script_body_line l"
    and lc: "script_body_line closer" by simp_all
  define st1 where "st1 = st\<lparr>htmlIndentLevel := depth_after (htmlIndentLevel st) opener,
             formattedLines := formattedLines st @
               [indentation cfg (twigIndentLevel st + emit_depth (htmlIndentLevel st) opener)
                @ trim opener]\<rparr>"
  from script_body_step [OF body(1) lo body(2,3)]
  have a: "format_line cfg st opener = Inr st1" by (simp add: st1_def)
  then have "format_lines cfg st (opener # take 0 inner) = Inr st1" by simp
  with deeper have "htmlIndentLevel st < htmlIndentLevel st1" by blast
  then have up: "htmlIndentLevel st < depth_after (htmlIndentLevel st) opener"
    by (simp add: st1_def)
  with body(3) have eo: "emit_depth (htmlIndentLevel st) opener = htmlIndentLevel st"
    by (auto simp: depth_after_def emit_depth_def split: if_splits)
  have b1: "in_script_body st1" "0 \<le> twigIndentLevel st1" "0 \<le> htmlIndentLevel st1"
    using body by (simp_all add: st1_def in_script_body_def depth_after_nonneg)
  from script_body_run [OF b1 li] obtain st2 mid where
    c: "format_lines cfg st1 inner = Inr st2" "in_script_body st2"
      "twigIndentLevel st2 = twigIndentLevel st1" "0 \<le> htmlIndentLevel st2"
      "formattedLines st2 = formattedLines st1 @ mid" "length mid = length inner"
    by blast
  have "format_lines cfg st (opener # take (length inner) inner) = Inr st2"
    using a c(1) by simp
  with deeper have h2: "htmlIndentLevel st < htmlIndentLevel st2" by blast
  have t2: "twigIndentLevel st2 = twigIndentLevel st" using c(3) by (simp add: st1_def)
  define st3 where "st3 = st2\<lparr>htmlIndentLevel := depth_after (htmlIndentLevel st2) closer,
             formattedLines := formattedLines st2 @
               [indentation cfg (twigIndentLevel st2 + emit_depth (htmlIndentLevel st2) closer)
                @ trim closer]\<rparr>"
  from script_body_step [OF c(2) lc _ c(4)] body(2) t2
  have d: "format_line cfg st2 closer = Inr st3" by (simp add: st3_def)
  have run: "format_lines cfg st (opener # inner @ [closer]) = Inr st3"
    using a c(1) d by (simp add: format_lines_append)
  with level have "htmlIndentLevel st3 = htmlIndentLevel st" by blast
  then have "depth_after (htmlIndentLevel st2) closer = htmlIndentLevel st"
    by (simp add: st3_def)
  with h2 have ec: "emit_depth (htmlIndentLevel st2) closer = htmlIndentLevel st"
    by (auto simp: depth_after_def split: if_splits)
  have "formattedLines st3 = formattedLines st
          @ [indentation cfg (twigIndentLevel st + htmlIndentLevel st) @ trim opener]
          @ mid
          @ [indentation cfg (twigIndentLevel st + htmlIndentLevel st) @ trim closer]"
    using c(5) eo ec t2 by (simp add: st3_def st1_def)
  with run c(6)
  show "\<exists>st' mid. format_lines cfg st (opener # inner @ [closer]) = Inr st'
      \<and> length mid = length inner
      \<and> formattedLines st' = formattedLines st
          @ [indentation cfg (twigIndentLevel st + htmlIndentLevel st) @ trim opener]
          @ mid
          @ [indentation cfg (twigIndentLevel st + htmlIndentLevel st) @ trim closer]"
    by blast
qed

text \<open>The state after the line \<open><script>\<close>, and the states along the block.\<close>

definition script_open :: fstate where
  "script_open =
     initial_state\<lparr>formattedLines := [''<script>''], htmlIndentLevel := 1,
       inScriptTag := True\<rparr>"

definition script_block_states :: "fstate list" where
  "script_block_states =
     [script_open\<lparr>formattedLines := [''<script>'', ''    if (x) {''], htmlIndentLevel := 2\<rparr>,
      script_open\<lparr>formattedLines := [''<script>'', ''    if (x) {'', ''        a''],
        htmlIndentLevel := 2\<rparr>,
      script_open\<lparr>formattedLines := [''<script>'', ''    if (x) {'', ''        a'', ''    }''],
        htmlIndentLevel := 1\<rparr>]"

lemma script_block_facts:
  "in_script_body script_open"
  "script_body_line ''if (x) {''" "script_body_line ''a''" "script_body_line ''}''"
  "format_lines default_config script_open [''if (x) {''] = Inr (script_block_states ! 0)"
  "format_lines default_config script_open [''if (x) {'', ''a''] = Inr (script_block_states ! 1)"
  "format_lines default_config script_open [''if (x) {'', ''a'', ''}'']
     = Inr (script_block_states ! 2)"
  "htmlIndentLevel script_open < htmlIndentLevel (script_block_states ! 0)"
  "htmlIndentLevel script_open < htmlIndentLevel (script_block_states ! 1)"
  "htmlIndentLevel (script_block_states ! 2) = htmlIndentLevel script_open"
  "0 \<le> twigIndentLevel script_open" "0 \<le> htmlIndentLevel script_open"
  by code_simp+

theorem brace_delta_indent_witness:
  "in_script_body script_open
   \<and> script_body_line ''if (x) {'' \<and> script_body_line ''a'' \<and> script_body_line ''}''
   \<and> format_lines default_config script_open [''if (x) {''] = Inr (script_block_states ! 0)
   \<and> htmlIndentLevel script_open < htmlIndentLevel (script_block_states ! 0)
   \<and> format_lines default_config script_open [''if (x) {'', ''a'']
       = Inr (script_block_states ! 1)
   \<and> htmlIndentLevel script_open < htmlIndentLevel (script_block_states ! 1)
   \<and> format_lines default_config script_open [''if (x) {'', ''a'', ''}'']
       = Inr (script_block_states ! 2)
   \<and> htmlIndentLevel (script_block_states ! 2) = htmlIndentLevel script_open
   \<and> formattedLines (script_block_states ! 2) ! 1 = ''    if (x) {''
   \<and> last (formattedLines (script_block_states ! 2)) = ''    }''"
proof -
  note f = script_block_facts
  have l: "\<forall>l \<in> set (''if (x) {'' # [''a''] @ [''}'']). script_body_line l"
    using f(2-4) by simp
  have deeper: "\<forall>k \<le> length [''a'']. \<forall>sk.
      format_lines default_config script_open (''if (x) {'' # take k [''a'']) = Inr sk
      \<longrightarrow> htmlIndentLevel script_open < htmlIndentLevel sk"
  proof (intro allI impI)
    fix k sk
    assume k: "k \<le> length [''a'']"
      and r: "format_lines default_config script_open (''if (x) {'' # take k [''a'']) = Inr sk"
    from k have "k = 0 \<or> k = 1" by auto
    then show "htmlIndentLevel script_open < htmlIndentLevel sk"
    proof
      assume "k = 0"
      with r f(5) have "sk = script_block_states ! 0" by simp
      with f(8) show ?thesis by simp
    next
      assume "k = 1"
      with r f(6) have "sk = script_block_states ! 1" by simp
      with f(9) show ?thesis by simp
    qed
  qed
  have level: "\<forall>st'. format_lines default_config script_open
        (''if (x) {'' # [''a''] @ [''}'']) = Inr st'
      \<longrightarrow> htmlIndentLevel st' = htmlIndentLevel script_open"
    using f(7,10) by auto
  from brace_delta_indent [OF f(1,11,12) l, of default_config] deeper level
  obtain st' mid where
    a: "format_lines default_config script_open (''if (x) {'' # [''a''] @ [''}'']) = Inr st'"
    and b: "length mid = length [''a'']"
    and c: "formattedLines st' = formattedLines script_open
          @ [indentation default_config (twigIndentLevel script_open
               + htmlIndentLevel script_open) @ trim ''if (x) {'']
          @ mid
          @ [indentation default_config (twigIndentLevel script_open
               + htmlIndentLevel script_open) @ trim ''}'']"
    by blast
  from a f(7) have d: "st' = script_block_states ! 2" by simp
  have e: "indentation default_config (twigIndentLevel script_open
               + htmlIndentLevel script_open) = ''    ''"
    "trim ''if (x) {'' = ''if (x) {''" "trim ''}'' = ''}''"
    "formattedLines script_open = [''<script>'']"
    by code_simp+
  from c have "formattedLines (script_block_states ! 2) ! 1 = ''    if (x) {''"
    and "last (formattedLines (script_block_states ! 2)) = ''    }''"
    unfolding d e by simp_all
  with f show ?thesis by blast
qed

section \<open>Formatting twice\<close>

subsection \<open>What a match consumes\<close>

text \<open>
  The strings that an expression can consume, captures and backreferences aside. The
  backtracking matcher only ever hands the continuation what is left behind such a
  string.
\<close>

fun accepts :: "rx \<Rightarrow> string \<Rightarrow> bool" where
  "accepts (Lit w) p = (p = w)"
| "accepts (LitI w) p = (length p = length w \<and> prefix_nocase w p)"
| "accepts (Cls P) p = (\<exists>x. p = [x] \<and> P x)"
| "accepts (Seq r1 r2) p = (\<exists>p1 p2. p = p1 @ p2 \<and> accepts r1 p1 \<and> accepts r2 p2)"
| "accepts (Alt r1 r2) p = (accepts r1 p \<or> accepts r2 p)"
| "accepts (Opt r) p = (p = [] \<or> accepts r p)"
| "accepts (Star P) p = (\<forall>x \<in> set p. P x)"
| "accepts (StarLazy P) p = (\<forall>x \<in> set p. P x)"
| "accepts (Grp n r) p = accepts r p"
| "accepts (Ref n) p = True"
| "accepts Eol p = (p = [])"

lemma starts_with_append: "starts_with w s \<longleftrightarrow> (\<exists>q. s = w @ q)"
  by (induction w s rule: starts_with.induct) auto

lemma starts_with_drop: "starts_with w s \<Longrightarrow> s = w @ drop (length w) s"
  by (auto simp: starts_with_append)

lemma prefix_nocase_take: "prefix_nocase w s \<Longrightarrow> prefix_nocase w (take (length w) s)"
  by (induction w s rule: prefix_nocase.induct) auto

lemma star_greedy_accepts:
  "star_greedy P s k = Some x \<Longrightarrow> \<exists>p s'. s = p @ s' \<and> (\<forall>c \<in> set p. P c) \<and> k s' = Some x"
proof (induction s)
  case Nil
  then show ?case by auto
next
  case (Cons a s)
  show ?case
  proof (cases "P a \<and> star_greedy P s k \<noteq> None")
    case True
    with Cons.prems have "star_greedy P s k = Some x" by auto
    from Cons.IH [OF this] obtain p s' where "s = p @ s'" "\<forall>c \<in> set p. P c" "k s' = Some x"
      by blast
    with True show ?thesis by (intro exI [of _ "a # p"] exI [of _ s']) simp
  next
    case False
    with Cons.prems have "k (a # s) = Some x" by (auto split: if_splits)
    then show ?thesis by (intro exI [of _ "[]"] exI [of _ "a # s"]) simp
  qed
qed

lemma star_lazy_accepts:
  "star_lazy P s k = Some x \<Longrightarrow> \<exists>p s'. s = p @ s' \<and> (\<forall>c \<in> set p. P c) \<and> k s' = Some x"
proof (induction s)
  case Nil
  then show ?case by auto
next
  case (Cons a s)
  show ?case
  proof (cases "k (a # s)")
    case (Some y)
    with Cons.prems have "k (a # s) = Some x" by simp
    then show ?thesis by (intro exI [of _ "[]"] exI [of _ "a # s"]) simp
  next
    case None
    with Cons.prems have "P a" and "star_lazy P s k = Some x"
      by (auto split: if_splits)
    from Cons.IH [OF this(2)] obtain p s' where "s = p @ s'" "\<forall>c \<in> set p. P c" "k s' = Some x"
      by blast
    with \<open>P a\<close> show ?thesis by (intro exI [of _ "a # p"] exI [of _ s']) simp
  qed
qed

lemma bt_accepts:
  "bt r s c k = Some x \<Longrightarrow> \<exists>p s' c'. s = p @ s' \<and> accepts r p \<and> k s' c' = Some x"
proof (induction r arbitrary: s c k)
  case (Lit w)
  then have "starts_with w s" and "k (drop (length w) s) c = Some x"
    by (auto split: if_splits)
  with starts_with_drop [of w s] show ?case
    by (intro exI [of _ w] exI [of _ "drop (length w) s"] exI [of _ c]) simp
next
  case (LitI w)
  then have a: "prefix_nocase w s" and b: "k (drop (length w) s) c = Some x"
    by (auto split: if_splits)
  from prefix_nocase_length [OF a] prefix_nocase_take [OF a] b show ?case
    by (intro exI [of _ "take (length w) s"] exI [of _ "drop (length w) s"] exI [of _ c]) simp
next
  case (Cls P)
  then obtain a s' where "s = a # s'" "P a" "k s' c = Some x"
    by (auto split: list.splits if_splits)
  then show ?case by (intro exI [of _ "[a]"] exI [of _ s'] exI [of _ c]) simp
next
  case (Seq r1 r2)
  from Seq.prems have "bt r1 s c (\<lambda>s' c'. bt r2 s' c' k) = Some x" by simp
  from Seq.IH(1) [OF this] obtain p1 s1 c1
    where a: "s = p1 @ s1" "accepts r1 p1" "bt r2 s1 c1 k = Some x" by blast
  from Seq.IH(2) [OF a(3)] obtain p2 s2 c2
    where b: "s1 = p2 @ s2" "accepts r2 p2" "k s2 c2 = Some x" by blast
  from a b show ?case
    by (intro exI [of _ "p1 @ p2"] exI [of _ s2] exI [of _ c2]) auto
next
  case (Alt r1 r2)
  show ?case
  proof (cases "bt r1 s c k")
    case None
    with Alt.prems have "bt r2 s c k = Some x" by simp
    from Alt.IH(2) [OF this] show ?thesis by auto
  next
    case (Some y)
    with Alt.prems have "bt r1 s c k = Some x" by simp
    from Alt.IH(1) [OF this] show ?thesis by auto
  qed
next
  case (Opt r)
  show ?case
  proof (cases "bt r s c k")
    case None
    with Opt.prems have "k s c = Some x" by simp
    then show ?thesis by (intro exI [of _ "[]"] exI [of _ s] exI [of _ c]) simp
  next
    case (Some y)
    with Opt.prems have "bt r s c k = Some x" by simp
    from Opt.IH [OF this] show ?thesis by auto
  qed
next
  case (Star P)
  from Star.prems have "star_greedy P s (\<lambda>s'. k s' c) = Some x" by simp
  from star_greedy_accepts [OF this] show ?case by auto
next
  case (StarLazy P)
  from StarLazy.prems have "star_lazy P s (\<lambda>s'. k s' c) = Some x" by simp
  from star_lazy_accepts [OF this] show ?case by auto
next
  case (Grp n r)
  from Grp.prems
  have "bt r s c (\<lambda>s' c'. k s' ((n, take (length s - length s') s) # c')) = Some x" by simp
  from Grp.IH [OF this] show ?case by auto
next
  case (Ref n)
  show ?case
  proof (cases "map_of c n")
    case None
    with Ref.prems have "k s c = Some x" by simp
    then show ?thesis by (intro exI [of _ "[]"] exI [of _ s] exI [of _ c]) simp
  next
    case (Some w)
    with Ref.prems have "starts_with w s" and "k (drop (length w) s) c = Some x"
      by (auto split: if_splits)
    with starts_with_drop [of w s] show ?thesis
      by (intro exI [of _ w] exI [of _ "drop (length w) s"] exI [of _ c]) simp
  qed
next
  case Eol
  then have "s = []" "k [] c = Some x" by (auto split: if_splits)
  then show ?case by (intro exI [of _ "[]"] exI [of _ "[]"] exI [of _ c]) simp
qed

subsection \<open>Matching a string and matching it inside a longer one\<close>

fun eol_free :: "rx \<Rightarrow> bool" where
  "eol_free (Seq r1 r2) = (eol_free r1 \<and> eol_free r2)"
| "eol_free (Alt r1 r2) = (eol_free r1 \<and> eol_free r2)"
| "eol_free (Opt r) = eol_free r"
| "eol_free (Grp n r) = eol_free r"
| "eol_free Eol = False"
| "eol_free r = True"

lemma starts_with_extend: "starts_with w s \<Longrightarrow> starts_with w (s @ t)"
  by (auto simp: starts_with_append)

lemma prefix_nocase_extend: "prefix_nocase w s \<Longrightarrow> prefix_nocase w (s @ t)"
  by (induction w s rule: prefix_nocase.induct) auto

lemma starts_with_within:
  "starts_with w (s @ t) \<Longrightarrow> length w \<le> length s \<Longrightarrow> starts_with w s"
  by (induction w s rule: starts_with.induct) auto

lemma prefix_nocase_within:
  "prefix_nocase w (s @ t) \<Longrightarrow> length w \<le> length s \<Longrightarrow> prefix_nocase w s"
  by (induction w s rule: prefix_nocase.induct) auto

subsubsection \<open>A match survives when the subject is extended\<close>

lemma star_greedy_fallback: "k s \<noteq> None \<Longrightarrow> star_greedy P s k \<noteq> None"
  by (cases s) (auto split: option.splits)

lemma star_lazy_fallback: "k s \<noteq> None \<Longrightarrow> star_lazy P s k \<noteq> None"
  by (cases s) (auto split: option.splits)

lemma star_greedy_extend:
  assumes "\<And>s' y. k s' = Some y \<Longrightarrow> k' (s' @ t) \<noteq> None"
  shows "star_greedy P s k = Some x \<Longrightarrow> star_greedy P (s @ t) k' \<noteq> None"
proof (induction s)
  case Nil
  then have "k [] = Some x" by simp
  from assms [OF this] show ?case by (simp add: star_greedy_fallback)
next
  case (Cons a s)
  show ?case
  proof (cases "P a \<and> star_greedy P s k \<noteq> None")
    case True
    with Cons.prems have "star_greedy P s k = Some x" by auto
    from Cons.IH [OF this] True show ?thesis by (auto split: option.splits)
  next
    case False
    with Cons.prems have "k (a # s) = Some x" by (auto split: if_splits)
    from assms [OF this] have "k' (a # s @ t) \<noteq> None" by simp
    then show ?thesis by (auto split: option.splits)
  qed
qed

lemma star_lazy_extend:
  assumes "\<And>s' y. k s' = Some y \<Longrightarrow> k' (s' @ t) \<noteq> None"
  shows "star_lazy P s k = Some x \<Longrightarrow> star_lazy P (s @ t) k' \<noteq> None"
proof (induction s)
  case Nil
  then have "k [] = Some x" by simp
  from assms [OF this] show ?case by (simp add: star_lazy_fallback)
next
  case (Cons a s)
  show ?case
  proof (cases "k (a # s)")
    case (Some y)
    from assms [OF this] have "k' (a # s @ t) \<noteq> None" by simp
    then show ?thesis by (auto split: option.splits)
  next
    case None
    with Cons.prems have "P a" and "star_lazy P s k = Some x"
      by (auto split: if_splits)
    from Cons.IH [OF this(2)] \<open>P a\<close> show ?thesis by (auto split: option.splits)
  qed
qed

lemma bt_extend:
  "eol_free r \<Longrightarrow> bt r s c k = Some x \<Longrightarrow>
   (\<And>s' c' y. k s' c' = Some y \<Longrightarrow> k' (s' @ t) c' \<noteq> None) \<Longrightarrow>
   bt r (s @ t) c k' \<noteq> None"
proof (induction r arbitrary: s c k k' x)
  case (Lit w)
  from Lit.prems(2) have a: "starts_with w s" and b: "k (drop (length w) s) c = Some x"
    by (auto split: if_splits)
  from starts_with_length [OF a] have "drop (length w) (s @ t) = drop (length w) s @ t" by simp
  with Lit.prems(3) [OF b] starts_with_extend [OF a] show ?case by simp
next
  case (LitI w)
  from LitI.prems(2) have a: "prefix_nocase w s" and b: "k (drop (length w) s) c = Some x"
    by (auto split: if_splits)
  from prefix_nocase_length [OF a] have "drop (length w) (s @ t) = drop (length w) s @ t" by simp
  with LitI.prems(3) [OF b] prefix_nocase_extend [OF a] show ?case by simp
next
  case (Cls P)
  from Cls.prems(2) obtain a s' where "s = a # s'" "P a" and b: "k s' c = Some x"
    by (auto split: list.splits if_splits)
  with Cls.prems(3) [OF b] show ?case by simp
next
  case (Seq r1 r2)
  from Seq.prems(1) have e: "eol_free r1" "eol_free r2" by simp_all
  from Seq.prems(2) have a: "bt r1 s c (\<lambda>s' c'. bt r2 s' c' k) = Some x" by simp
  have "bt r1 (s @ t) c (\<lambda>s' c'. bt r2 s' c' k') \<noteq> None"
  proof (rule Seq.IH(1) [OF e(1) a])
    fix s' c' y
    assume "bt r2 s' c' k = Some y"
    with e(2) show "bt r2 (s' @ t) c' k' \<noteq> None"
      using Seq.prems(3) by (rule Seq.IH(2))
  qed
  then show ?case by simp
next
  case (Alt r1 r2)
  from Alt.prems(1) have e: "eol_free r1" "eol_free r2" by simp_all
  show ?case
  proof (cases "bt r1 s c k")
    case None
    with Alt.prems(2) have "bt r2 s c k = Some x" by simp
    with e(2) have "bt r2 (s @ t) c k' \<noteq> None"
      using Alt.prems(3) by (rule Alt.IH(2))
    then show ?thesis by (auto split: option.splits)
  next
    case (Some y)
    with Alt.prems(2) have "bt r1 s c k = Some x" by simp
    with e(1) have "bt r1 (s @ t) c k' \<noteq> None"
      using Alt.prems(3) by (rule Alt.IH(1))
    then show ?thesis by (auto split: option.splits)
  qed
next
  case (Opt r)
  from Opt.prems(1) have e: "eol_free r" by simp
  show ?case
  proof (cases "bt r s c k")
    case None
    with Opt.prems(2) have "k s c = Some x" by simp
    from Opt.prems(3) [OF this] show ?thesis by (auto split: option.splits)
  next
    case (Some y)
    with Opt.prems(2) have "bt r s c k = Some x" by simp
    with e have "bt r (s @ t) c k' \<noteq> None"
      using Opt.prems(3) by (rule Opt.IH)
    then show ?thesis by (auto split: option.splits)
  qed
next
  case (Star P)
  from Star.prems(2) have a: "star_greedy P s (\<lambda>s'. k s' c) = Some x" by simp
  have "star_greedy P (s @ t) (\<lambda>s'. k' s' c) \<noteq> None"
    by (rule star_greedy_extend [OF _ a]) (rule Star.prems(3))
  then show ?case by simp
next
  case (StarLazy P)
  from StarLazy.prems(2) have a: "star_lazy P s (\<lambda>s'. k s' c) = Some x" by simp
  have "star_lazy P (s @ t) (\<lambda>s'. k' s' c) \<noteq> None"
    by (rule star_lazy_extend [OF _ a]) (rule StarLazy.prems(3))
  then show ?case by simp
next
  case (Grp n r)
  from Grp.prems(1) have e: "eol_free r" by simp
  from Grp.prems(2)
  have a: "bt r s c (\<lambda>s' c'. k s' ((n, take (length s - length s') s) # c')) = Some x" by simp
  have "bt r (s @ t) c
      (\<lambda>u c'. k' u ((n, take (length (s @ t) - length u) (s @ t)) # c')) \<noteq> None"
  proof (rule Grp.IH [OF e a])
    fix s' c' y
    assume "k s' ((n, take (length s - length s') s) # c') = Some y"
    from Grp.prems(3) [OF this]
    show "k' (s' @ t) ((n, take (length (s @ t) - length (s' @ t)) (s @ t)) # c') \<noteq> None"
      by simp
  qed
  then show ?case by simp
next
  case (Ref n)
  show ?case
  proof (cases "map_of c n")
    case None
    with Ref.prems(2) have "k s c = Some x" by simp
    from Ref.prems(3) [OF this] None show ?thesis by simp
  next
    case (Some w)
    with Ref.prems(2) have a: "starts_with w s" and b: "k (drop (length w) s) c = Some x"
      by (auto split: if_splits)
    from starts_with_length [OF a] have "drop (length w) (s @ t) = drop (length w) s @ t"
      by simp
    with Ref.prems(3) [OF b] starts_with_extend [OF a] Some show ?thesis by simp
  qed
next
  case Eol
  then show ?case by simp
qed

subsubsection \<open>A continuation that refuses to go beyond a prefix\<close>

lemma star_greedy_none:
  "(\<And>u. length u \<le> length s \<Longrightarrow> k u = None) \<Longrightarrow> star_greedy P s k = None"
  using star_greedy_result [of P s k] by (cases "star_greedy P s k") auto

lemma star_lazy_none:
  "(\<And>u. length u \<le> length s \<Longrightarrow> k u = None) \<Longrightarrow> star_lazy P s k = None"
  using star_lazy_result [of P s k] by (cases "star_lazy P s k") auto

lemma bt_none:
  "(\<And>u c'. length u \<le> length s \<Longrightarrow> k u c' = None) \<Longrightarrow> bt r s c k = None"
  using bt_result [of r s c k] by (cases "bt r s c k") fastforce+

lemma star_greedy_at_end:
  assumes "\<And>u. length u < length t \<Longrightarrow> k u = None"
  shows "star_greedy P t k = k t"
proof (cases t)
  case Nil
  then show ?thesis by simp
next
  case (Cons a u)
  have "star_greedy P u k = None"
    by (rule star_greedy_none) (simp add: assms Cons)
  with Cons show ?thesis by simp
qed

lemma star_lazy_at_end:
  assumes "\<And>u. length u < length t \<Longrightarrow> k u = None"
  shows "star_lazy P t k = k t"
proof (cases t)
  case Nil
  then show ?thesis by simp
next
  case (Cons a u)
  have "star_lazy P u k = None"
    by (rule star_lazy_none) (simp add: assms Cons)
  with Cons show ?thesis by (simp split: option.splits)
qed

lemma star_greedy_truncate:
  assumes "\<And>u. length u < length t \<Longrightarrow> k u = None"
  shows "star_greedy P (s @ t) k = star_greedy P s (\<lambda>s'. k (s' @ t))"
proof (induction s)
  case Nil
  show ?case using star_greedy_at_end [of t k P] assms by simp
next
  case (Cons a s)
  then show ?case by (simp split: option.splits)
qed

lemma star_lazy_truncate:
  assumes "\<And>u. length u < length t \<Longrightarrow> k u = None"
  shows "star_lazy P (s @ t) k = star_lazy P s (\<lambda>s'. k (s' @ t))"
proof (induction s)
  case Nil
  show ?case using star_lazy_at_end [of t k P] assms by simp
next
  case (Cons a s)
  then show ?case by (simp split: option.splits)
qed

lemma bt_truncate:
  "eol_free r \<Longrightarrow> (\<And>u c'. length u < length t \<Longrightarrow> k u c' = None) \<Longrightarrow>
   bt r (s @ t) c k = bt r s c (\<lambda>s' c'. k (s' @ t) c')"
proof (induction r arbitrary: s c k)
  case (Lit w)
  show ?case
  proof (cases "length w \<le> length s")
    case True
    then have "starts_with w (s @ t) = starts_with w s"
      using starts_with_within [of w s t] starts_with_extend [of w s t] by blast
    with True show ?thesis by simp
  next
    case False
    then have a: "\<not> starts_with w s" using starts_with_length [of w s] by auto
    have "k (drop (length w) (s @ t)) c = None" if "starts_with w (s @ t)"
    proof (rule Lit.prems(2))
      from starts_with_length [OF that] False show "length (drop (length w) (s @ t)) < length t"
        by simp
    qed
    with a show ?thesis by auto
  qed
next
  case (LitI w)
  show ?case
  proof (cases "length w \<le> length s")
    case True
    then have "prefix_nocase w (s @ t) = prefix_nocase w s"
      using prefix_nocase_within [of w s t] prefix_nocase_extend [of w s t] by blast
    with True show ?thesis by simp
  next
    case False
    then have a: "\<not> prefix_nocase w s" using prefix_nocase_length [of w s] by auto
    have "k (drop (length w) (s @ t)) c = None" if "prefix_nocase w (s @ t)"
    proof (rule LitI.prems(2))
      from prefix_nocase_length [OF that] False show "length (drop (length w) (s @ t)) < length t"
        by simp
    qed
    with a show ?thesis by auto
  qed
next
  case (Cls P)
  show ?case
  proof (cases s)
    case Nil
    show ?thesis
    proof (cases t)
      case Nil
      with \<open>s = []\<close> show ?thesis by simp
    next
      case (Cons a u)
      have "k u c = None" by (rule Cls.prems(2)) (simp add: Cons)
      with Cons \<open>s = []\<close> show ?thesis by simp
    qed
  next
    case (Cons a u)
    then show ?thesis by simp
  qed
next
  case (Seq r1 r2)
  from Seq.prems(1) have e: "eol_free r1" "eol_free r2" by simp_all
  have n: "bt r2 u c' k = None" if "length u < length t" for u c'
    by (rule bt_none) (use that Seq.prems(2) in simp)
  have "bt r1 (s @ t) c (\<lambda>s' c'. bt r2 s' c' k)
      = bt r1 s c (\<lambda>s' c'. bt r2 (s' @ t) c' k)"
    using e(1) n by (rule Seq.IH(1))
  also have "(\<lambda>s' c'. bt r2 (s' @ t) c' k) = (\<lambda>s' c'. bt r2 s' c' (\<lambda>s'' c''. k (s'' @ t) c''))"
  proof (intro ext)
    fix s' c'
    show "bt r2 (s' @ t) c' k = bt r2 s' c' (\<lambda>s'' c''. k (s'' @ t) c'')"
      using e(2) Seq.prems(2) by (rule Seq.IH(2))
  qed
  finally show ?case by simp
next
  case (Alt r1 r2)
  from Alt.prems(1) have e: "eol_free r1" "eol_free r2" by simp_all
  have "bt r1 (s @ t) c k = bt r1 s c (\<lambda>s' c'. k (s' @ t) c')"
    using e(1) Alt.prems(2) by (rule Alt.IH(1))
  moreover have "bt r2 (s @ t) c k = bt r2 s c (\<lambda>s' c'. k (s' @ t) c')"
    using e(2) Alt.prems(2) by (rule Alt.IH(2))
  ultimately show ?case by (simp split: option.splits)
next
  case (Opt r)
  from Opt.prems(1) have e: "eol_free r" by simp
  have "bt r (s @ t) c k = bt r s c (\<lambda>s' c'. k (s' @ t) c')"
    using e Opt.prems(2) by (rule Opt.IH)
  then show ?case by (simp split: option.splits)
next
  case (Star P)
  have "star_greedy P (s @ t) (\<lambda>s'. k s' c) = star_greedy P s (\<lambda>s'. k (s' @ t) c)"
    by (rule star_greedy_truncate) (rule Star.prems(2))
  then show ?case by simp
next
  case (StarLazy P)
  have "star_lazy P (s @ t) (\<lambda>s'. k s' c) = star_lazy P s (\<lambda>s'. k (s' @ t) c)"
    by (rule star_lazy_truncate) (rule StarLazy.prems(2))
  then show ?case by simp
next
  case (Grp n r)
  from Grp.prems(1) have e: "eol_free r" by simp
  have n: "k u ((n, take (length (s @ t) - length u) (s @ t)) # c') = None"
    if "length u < length t" for u c'
    by (rule Grp.prems(2)) (rule that)
  have "bt r (s @ t) c (\<lambda>u c'. k u ((n, take (length (s @ t) - length u) (s @ t)) # c'))
      = bt r s c (\<lambda>s' c'. k (s' @ t)
          ((n, take (length (s @ t) - length (s' @ t)) (s @ t)) # c'))"
    using e n by (rule Grp.IH)
  then show ?case by simp
next
  case (Ref n)
  show ?case
  proof (cases "map_of c n")
    case None
    then show ?thesis by simp
  next
    case (Some w)
    show ?thesis
    proof (cases "length w \<le> length s")
      case True
      then have "starts_with w (s @ t) = starts_with w s"
        using starts_with_within [of w s t] starts_with_extend [of w s t] by blast
      with True Some show ?thesis by simp
    next
      case False
      then have a: "\<not> starts_with w s" using starts_with_length [of w s] by auto
      have "k (drop (length w) (s @ t)) c = None" if "starts_with w (s @ t)"
      proof (rule Ref.prems(2))
        from starts_with_length [OF that] False show "length (drop (length w) (s @ t)) < length t"
          by simp
      qed
      with a Some show ?thesis by auto
    qed
  qed
next
  case Eol
  then show ?case by simp
qed

subsubsection \<open>A continuation that gives up some of its results\<close>

lemma star_greedy_restrict:
  assumes "\<And>u. k u = None \<Longrightarrow> k' u = None"
    and "\<And>u y. k u = Some y \<Longrightarrow> good y \<Longrightarrow> k' u = Some y"
  shows "(star_greedy P s k = None \<longrightarrow> star_greedy P s k' = None)
       \<and> (\<forall>x. star_greedy P s k = Some x \<longrightarrow> good x \<longrightarrow> star_greedy P s k' = Some x)"
proof (induction s)
  case Nil
  from assms show ?case by auto
next
  case (Cons a s)
  show ?case
  proof (cases "P a")
    case False
    with assms show ?thesis by auto
  next
    case True
    show ?thesis
    proof (cases "star_greedy P s k")
      case None
      with Cons have "star_greedy P s k' = None" by simp
      with None True assms show ?thesis by auto
    next
      case (Some y)
      with Cons True show ?thesis by auto
    qed
  qed
qed

lemma star_lazy_restrict:
  assumes "\<And>u. k u = None \<Longrightarrow> k' u = None"
    and "\<And>u y. k u = Some y \<Longrightarrow> good y \<Longrightarrow> k' u = Some y"
  shows "(star_lazy P s k = None \<longrightarrow> star_lazy P s k' = None)
       \<and> (\<forall>x. star_lazy P s k = Some x \<longrightarrow> good x \<longrightarrow> star_lazy P s k' = Some x)"
proof (induction s)
  case Nil
  from assms show ?case by auto
next
  case (Cons a s)
  show ?case
  proof (cases "k (a # s)")
    case None
    with assms(1) have "k' (a # s) = None" by simp
    with None Cons show ?thesis by auto
  next
    case (Some y)
    with assms(2) show ?thesis by auto
  qed
qed

lemma bt_restrict:
  "(\<And>u c'. k u c' = None \<Longrightarrow> k' u c' = None) \<Longrightarrow>
   (\<And>u c' y. k u c' = Some y \<Longrightarrow> good y \<Longrightarrow> k' u c' = Some y) \<Longrightarrow>
   (bt r s c k = None \<longrightarrow> bt r s c k' = None)
   \<and> (\<forall>x. bt r s c k = Some x \<longrightarrow> good x \<longrightarrow> bt r s c k' = Some x)"
proof (induction r arbitrary: s c k k')
  case (Lit w)
  then show ?case by auto
next
  case (LitI w)
  then show ?case by auto
next
  case (Cls P)
  then show ?case by (auto split: list.splits)
next
  case (Seq r1 r2)
  have "(bt r1 s c (\<lambda>s' c'. bt r2 s' c' k) = None
        \<longrightarrow> bt r1 s c (\<lambda>s' c'. bt r2 s' c' k') = None)
      \<and> (\<forall>x. bt r1 s c (\<lambda>s' c'. bt r2 s' c' k) = Some x \<longrightarrow> good x
        \<longrightarrow> bt r1 s c (\<lambda>s' c'. bt r2 s' c' k') = Some x)"
  proof (rule Seq.IH(1))
    fix u c'
    assume "bt r2 u c' k = None"
    with Seq.IH(2) [of k k' u c', OF Seq.prems] show "bt r2 u c' k' = None" by simp
  next
    fix u c' y
    assume "bt r2 u c' k = Some y" "good y"
    with Seq.IH(2) [of k k' u c', OF Seq.prems] show "bt r2 u c' k' = Some y" by simp
  qed
  then show ?case by simp
next
  case (Alt r1 r2)
  from Alt.IH(1) [of k k' s c, OF Alt.prems] Alt.IH(2) [of k k' s c, OF Alt.prems]
  show ?case by (auto split: option.splits)
next
  case (Opt r)
  from Opt.IH [of k k' s c, OF Opt.prems] Opt.prems
  show ?case by (auto split: option.splits)
next
  case (Star P)
  have "(star_greedy P s (\<lambda>s'. k s' c) = None \<longrightarrow> star_greedy P s (\<lambda>s'. k' s' c) = None)
      \<and> (\<forall>x. star_greedy P s (\<lambda>s'. k s' c) = Some x \<longrightarrow> good x
          \<longrightarrow> star_greedy P s (\<lambda>s'. k' s' c) = Some x)"
    by (rule star_greedy_restrict) (use Star.prems in auto)
  then show ?case by simp
next
  case (StarLazy P)
  have "(star_lazy P s (\<lambda>s'. k s' c) = None \<longrightarrow> star_lazy P s (\<lambda>s'. k' s' c) = None)
      \<and> (\<forall>x. star_lazy P s (\<lambda>s'. k s' c) = Some x \<longrightarrow> good x
          \<longrightarrow> star_lazy P s (\<lambda>s'. k' s' c) = Some x)"
    by (rule star_lazy_restrict) (use StarLazy.prems in auto)
  then show ?case by simp
next
  case (Grp n r)
  have "(bt r s c (\<lambda>s' c'. k s' ((n, take (length s - length s') s) # c')) = None
        \<longrightarrow> bt r s c (\<lambda>s' c'. k' s' ((n, take (length s - length s') s) # c')) = None)
      \<and> (\<forall>x. bt r s c (\<lambda>s' c'. k s' ((n, take (length s - length s') s) # c')) = Some x
        \<longrightarrow> good x
        \<longrightarrow> bt r s c (\<lambda>s' c'. k' s' ((n, take (length s - length s') s) # c')) = Some x)"
    by (rule Grp.IH) (use Grp.prems in auto)
  then show ?case by simp
next
  case (Ref n)
  then show ?case by (auto split: option.splits)
next
  case Eol
  then show ?case by auto
qed

subsubsection \<open>The result of the continuation does not steer the search\<close>

lemma star_greedy_map:
  "star_greedy P s (\<lambda>s'. map_option f (k s')) = map_option f (star_greedy P s k)"
  by (induction s) (auto split: option.splits)

lemma star_lazy_map:
  "star_lazy P s (\<lambda>s'. map_option f (k s')) = map_option f (star_lazy P s k)"
  by (induction s) (auto split: option.splits)

lemma bt_map:
  "bt r s c (\<lambda>s' c'. map_option f (k s' c')) = map_option f (bt r s c k)"
proof (induction r arbitrary: s c k)
  case (Seq r1 r2)
  have "bt r1 s c (\<lambda>s' c'. bt r2 s' c' (\<lambda>s'' c''. map_option f (k s'' c'')))
      = bt r1 s c (\<lambda>s' c'. map_option f (bt r2 s' c' k))"
    by (simp add: Seq.IH(2))
  also have "\<dots> = map_option f (bt r1 s c (\<lambda>s' c'. bt r2 s' c' k))"
    by (rule Seq.IH(1))
  finally show ?case by simp
next
  case (Alt r1 r2)
  then show ?case by (simp split: option.splits)
next
  case (Opt r)
  then show ?case by (simp split: option.splits)
next
  case (Star P)
  show ?case using star_greedy_map [of P s f "\<lambda>s'. k s' c"] by simp
next
  case (StarLazy P)
  show ?case using star_lazy_map [of P s f "\<lambda>s'. k s' c"] by simp
next
  case (Grp n r)
  show ?case
    using Grp.IH [of s c "\<lambda>s' c'. k s' ((n, take (length s - length s') s) # c')"] by simp
next
  case (Cls P)
  then show ?case by (simp split: list.splits)
next
  case (Ref n)
  then show ?case by (simp split: option.splits)
qed simp_all

subsection \<open>Searching\<close>

text \<open>The expression matches at the start of the string.\<close>

definition matches_at :: "rx \<Rightarrow> string \<Rightarrow> bool" where
  "matches_at r s = (match_here r 0 s \<noteq> None)"

lemma match_here_index:
  "match_here r j s = map_option (\<lambda>m. m\<lparr>m_index := j\<rparr>) (match_here r i s)"
proof -
  have "match_here r j s =
      bt r s [] (\<lambda>s' c. map_option (\<lambda>m. m\<lparr>m_index := j\<rparr>)
        (Some \<lparr>m_index = i, m_len = length s - length s', m_caps = c\<rparr>))"
    by (simp add: match_here_def)
  also have "\<dots> = map_option (\<lambda>m. m\<lparr>m_index := j\<rparr>) (match_here r i s)"
    unfolding match_here_def by (rule bt_map)
  finally show ?thesis .
qed

lemma match_here_None: "match_here r i s = None \<longleftrightarrow> \<not> matches_at r s"
  using match_here_index [of r i s 0] by (auto simp: matches_at_def)

lemma exec_from_None: "exec_from r i s = None \<longleftrightarrow> (\<forall>q \<le> length s. \<not> matches_at r (drop q s))"
proof (induction s arbitrary: i)
  case Nil
  then show ?case by (simp add: match_here_None)
next
  case (Cons a s)
  have "(\<forall>q \<le> length (a # s). \<not> matches_at r (drop q (a # s)))
      \<longleftrightarrow> \<not> matches_at r (a # s) \<and> (\<forall>q \<le> length s. \<not> matches_at r (drop q s))"
  proof
    assume h: "\<forall>q \<le> length (a # s). \<not> matches_at r (drop q (a # s))"
    have "\<not> matches_at r (drop q s)" if "q \<le> length s" for q
      using h [rule_format, of "Suc q"] that by simp
    with h [rule_format, of 0] show "\<not> matches_at r (a # s) \<and> (\<forall>q \<le> length s. \<not> matches_at r (drop q s))"
      by simp
  next
    assume h: "\<not> matches_at r (a # s) \<and> (\<forall>q \<le> length s. \<not> matches_at r (drop q s))"
    show "\<forall>q \<le> length (a # s). \<not> matches_at r (drop q (a # s))"
    proof (intro allI impI)
      fix q assume "q \<le> length (a # s)"
      with h show "\<not> matches_at r (drop q (a # s))" by (cases q) simp_all
    qed
  qed
  with Cons [of "Suc i"] show ?case
    by (cases "match_here r i (a # s)") (use match_here_None [of r i "a # s"] in auto)
qed

lemma exec_from_first:
  assumes "q \<le> length s" and "\<forall>q' < q. \<not> matches_at r (drop q' s)"
  shows "exec_from r i s = exec_from r (i + q) (drop q s)"
  using assms
proof (induction q arbitrary: i s)
  case 0
  then show ?case by simp
next
  case (Suc q)
  then obtain a u where s: "s = a # u" by (cases s) auto
  from Suc.prems(2) [rule_format, of 0] have n: "match_here r i (a # u) = None"
    by (simp add: s match_here_None)
  have "\<forall>q' < q. \<not> matches_at r (drop q' u)"
  proof (intro allI impI)
    fix q' assume "q' < q"
    with Suc.prems(2) [rule_format, of "Suc q'"] show "\<not> matches_at r (drop q' u)"
      by (simp add: s)
  qed
  with Suc.IH [of u "Suc i"] Suc.prems(1) n show ?case by (simp add: s)
qed

lemma exec_from_here:
  assumes "matches_at r s"
  shows "exec_from r i s = match_here r i s"
proof (cases s)
  case Nil
  then show ?thesis by simp
next
  case (Cons a u)
  from assms have "match_here r i s \<noteq> None" by (simp add: match_here_None)
  with Cons show ?thesis by auto
qed

lemma exec_from_Some:
  assumes "exec_from r i s = Some m"
  shows "\<exists>q \<le> length s. (\<forall>q' < q. \<not> matches_at r (drop q' s))
      \<and> match_here r (i + q) (drop q s) = Some m"
proof -
  from assms have "\<exists>q \<le> length s. matches_at r (drop q s)"
    using exec_from_None [of r i s] by auto
  then obtain q0 where "q0 \<le> length s \<and> matches_at r (drop q0 s)" by blast
  define q where "q = (LEAST q. q \<le> length s \<and> matches_at r (drop q s))"
  have a: "q \<le> length s \<and> matches_at r (drop q s)"
    unfolding q_def by (rule LeastI) fact
  have b: "\<not> matches_at r (drop q' s)" if "q' < q" for q'
  proof
    assume "matches_at r (drop q' s)"
    with that a have "q' \<le> length s \<and> matches_at r (drop q' s)" by simp
    then have "q \<le> q'" unfolding q_def by (rule Least_le)
    with that show False by simp
  qed
  from a b have "exec_from r i s = exec_from r (i + q) (drop q s)"
    by (intro exec_from_first) auto
  with a assms have "match_here r (i + q) (drop q s) = Some m"
    by (simp add: exec_from_here)
  with a b show ?thesis by blast
qed

lemma test_iff: "test r s \<longleftrightarrow> (\<exists>q \<le> length s. matches_at r (drop q s))"
  using exec_from_None [of r 0 s] by (auto simp: test_def exec_def)

lemma matches_at_extend:
  assumes "eol_free r" "matches_at r s"
  shows "matches_at r (s @ t)"
proof -
  from assms(2) obtain m where
    "bt r s [] (\<lambda>s' c. Some \<lparr>m_index = 0, m_len = length s - length s', m_caps = c\<rparr>) = Some m"
    by (auto simp: matches_at_def match_here_def)
  with assms(1) have "bt r (s @ t) []
      (\<lambda>s' c. Some \<lparr>m_index = 0, m_len = length (s @ t) - length s', m_caps = c\<rparr>) \<noteq> None"
    by (rule bt_extend) simp
  then show ?thesis by (simp add: matches_at_def match_here_def)
qed

lemma test_infix:
  assumes "eol_free r" "test r s"
  shows "test r (a @ s @ b)"
proof -
  from assms(2) obtain q where q: "q \<le> length s" "matches_at r (drop q s)"
    by (auto simp: test_iff)
  from matches_at_extend [OF assms(1) q(2), of b] q(1)
  have "matches_at r (drop (length a + q) (a @ s @ b))" by simp
  moreover have "length a + q \<le> length (a @ s @ b)" using q(1) by simp
  ultimately show ?thesis unfolding test_iff by blast
qed

text \<open>A match that ends where the prefix ends is the match on the prefix alone.\<close>

lemma match_here_prefix:
  assumes "eol_free r" and "match_here r i (p @ b) = Some m" and "m_len m = length p"
  shows "match_here r i p = Some m"
proof -
  let ?K = "\<lambda>u c. Some \<lparr>m_index = i, m_len = length (p @ b) - length u, m_caps = c\<rparr>"
  let ?Kt = "\<lambda>u c. if length u < length b then None else ?K u c"
  from assms(2) have a: "bt r (p @ b) [] ?K = Some m" by (simp add: match_here_def)
  have "(bt r (p @ b) [] ?K = None \<longrightarrow> bt r (p @ b) [] ?Kt = None)
      \<and> (\<forall>x. bt r (p @ b) [] ?K = Some x \<longrightarrow> m_len x \<le> length p
          \<longrightarrow> bt r (p @ b) [] ?Kt = Some x)"
    by (rule bt_restrict) (auto split: if_splits)
  with a assms(3) have "bt r (p @ b) [] ?Kt = Some m" by simp
  moreover have "bt r (p @ b) [] ?Kt = bt r p [] (\<lambda>s' c'. ?Kt (s' @ b) c')"
    by (rule bt_truncate [OF assms(1)]) simp
  ultimately show ?thesis by (simp add: match_here_def)
qed

lemma includes_iff: "includes_str w s \<longleftrightarrow> (\<exists>a b. s = a @ w @ b)"
proof (induction s)
  case Nil
  then show ?case by auto
next
  case (Cons x s)
  show ?case
  proof
    assume "includes_str w (x # s)"
    then consider "starts_with w (x # s)" | "includes_str w s" by auto
    then show "\<exists>a b. x # s = a @ w @ b"
    proof cases
      case 1
      then obtain q where "x # s = w @ q" by (auto simp: starts_with_append)
      then show ?thesis by (intro exI [of _ "[]"] exI [of _ q]) simp
    next
      case 2
      with Cons obtain a b where "s = a @ w @ b" by blast
      then show ?thesis by (intro exI [of _ "x # a"] exI [of _ b]) simp
    qed
  next
    assume "\<exists>a b. x # s = a @ w @ b"
    then obtain a b where e: "x # s = a @ w @ b" by blast
    show "includes_str w (x # s)"
    proof (cases a)
      case Nil
      with e have "starts_with w (x # s)" by (auto simp: starts_with_append)
      then show ?thesis by simp
    next
      case (Cons y a')
      with e have "s = a' @ w @ b" by simp
      with Cons.IH show ?thesis by auto
    qed
  qed
qed

lemma includes_infix: "includes_str w s \<Longrightarrow> includes_str w (a @ s @ b)"
proof -
  assume "includes_str w s"
  then obtain a' b' where "s = a' @ w @ b'" by (auto simp: includes_iff)
  then have "a @ s @ b = (a @ a') @ w @ (b' @ b)" by simp
  then show ?thesis unfolding includes_iff by blast
qed

subsection \<open>Trimming\<close>

lemma trim_Nil: "trim [] = []"
  by (simp add: trim_def)

lemma trim_ws_append: "\<forall>c \<in> set ws. is_space c \<Longrightarrow> trim (ws @ s) = trim s"
proof -
  assume "\<forall>c \<in> set ws. is_space c"
  then have "dropWhile is_space (ws @ s) = dropWhile is_space s"
    by (induction ws) auto
  then show ?thesis by (simp add: trim_def)
qed

lemma dropWhile_rest:
  "dropWhile is_space s = trim s @ rev (takeWhile is_space (rev (dropWhile is_space s)))"
proof -
  let ?r = "dropWhile is_space s"
  have "rev (rev ?r) = rev (takeWhile is_space (rev ?r) @ dropWhile is_space (rev ?r))"
    by (simp only: takeWhile_dropWhile_id)
  then have "?r = rev (dropWhile is_space (rev ?r)) @ rev (takeWhile is_space (rev ?r))"
    by (simp only: rev_rev_ident rev_append)
  then show ?thesis by (simp only: trim_def)
qed

lemma trim_decompose:
  "\<exists>u v. s = u @ trim s @ v \<and> (\<forall>c \<in> set u. is_space c) \<and> (\<forall>c \<in> set v. is_space c)"
proof -
  let ?u = "takeWhile is_space s"
  let ?r = "dropWhile is_space s"
  let ?v = "rev (takeWhile is_space (rev ?r))"
  have "s = ?u @ ?r" by (simp only: takeWhile_dropWhile_id)
  also have "?r = trim s @ ?v" by (rule dropWhile_rest)
  finally have "s = ?u @ trim s @ ?v" .
  moreover have "\<forall>c \<in> set ?u. is_space c" by (auto dest: set_takeWhileD)
  moreover have "\<forall>c \<in> set ?v. is_space c" by (auto dest: set_takeWhileD)
  ultimately show ?thesis by blast
qed

lemma dropWhile_fixed: "s \<noteq> [] \<Longrightarrow> \<not> P (hd s) \<Longrightarrow> dropWhile P s = s"
  by (cases s) auto

lemma trim_fixed:
  assumes "s \<noteq> []" "\<not> is_space (hd s)" "\<not> is_space (last s)"
  shows "trim s = s"
proof -
  from assms(1,2) have a: "dropWhile is_space s = s" by (rule dropWhile_fixed)
  from assms(1) have "rev s \<noteq> []" by simp
  moreover from assms(1,3) have "\<not> is_space (hd (rev s))" by (simp add: hd_rev)
  ultimately have "dropWhile is_space (rev s) = rev s" by (rule dropWhile_fixed)
  with a show ?thesis by (simp add: trim_def)
qed

lemma trim_ends:
  assumes "trim s \<noteq> []"
  shows "\<not> is_space (hd (trim s)) \<and> \<not> is_space (last (trim s))"
proof -
  let ?r = "dropWhile is_space s"
  let ?d = "dropWhile is_space (rev ?r)"
  from assms have n: "?d \<noteq> []" by (simp only: trim_def rev_is_Nil_conv not_False_eq_True)
  then have "\<not> is_space (hd ?d)" by (rule hd_dropWhile)
  moreover have "last (rev ?d) = hd ?d" by (cases ?d) (simp_all only: last_rev)
  ultimately have l: "\<not> is_space (last (trim s))" unfolding trim_def by (simp only: simp_thms)
  have rn: "?r \<noteq> []"
  proof
    assume "?r = []"
    then have "?d = []" by (simp only: rev.simps dropWhile.simps)
    with n show False by (simp only: simp_thms)
  qed
  then have h: "\<not> is_space (hd ?r)" by (rule hd_dropWhile)
  have "hd ?r = hd (trim s @ rev (takeWhile is_space (rev ?r)))"
    using dropWhile_rest [of s] by (simp only:)
  also have "\<dots> = hd (trim s)" using assms by (rule hd_append2)
  finally have "\<not> is_space (hd (trim s))" using h by (simp only: simp_thms)
  with l show ?thesis by (simp only: simp_thms)
qed

lemma trim_idem: "trim (trim s) = trim s"
proof (cases "trim s = []")
  case True
  then show ?thesis by (simp only: trim_Nil)
next
  case False
  from trim_ends [OF False] False show ?thesis by (intro trim_fixed) simp_all
qed

subsection \<open>Splitting a run again\<close>

lemma match_here_accepts:
  assumes "match_here r i s = Some m"
  shows "\<exists>p s'. s = p @ s' \<and> accepts r p \<and> m_len m = length p"
proof -
  from assms have "bt r s []
      (\<lambda>s' c. Some \<lparr>m_index = i, m_len = length s - length s', m_caps = c\<rparr>) = Some m"
    by (simp add: match_here_def)
  from bt_accepts [OF this] obtain p s' c' where
    a: "s = p @ s'" "accepts r p"
      "Some \<lparr>m_index = i, m_len = length s - length s', m_caps = c'\<rparr> = Some m"
    by blast
  from a(3) have "m_len m = length s - length s'" by auto
  with a(1,2) show ?thesis by (intro exI [of _ p] exI [of _ s']) simp
qed

lemma eol_free_twig_span: "eol_free rx_twig_span"
  by (simp add: rx_twig_span_def)

lemma accepts_twig_span:
  "accepts rx_twig_span p \<Longrightarrow>
     \<exists>mid. p = CHR ''{'' # mid @ [CHR ''}''] "
  by (auto simp: rx_twig_span_def)

lemma twig_span_first: "matches_at rx_twig_span s \<Longrightarrow> \<exists>u. s = CHR ''{'' # u"
proof -
  assume "matches_at rx_twig_span s"
  then obtain m where "match_here rx_twig_span 0 s = Some m"
    by (auto simp: matches_at_def)
  from match_here_accepts [OF this] accepts_twig_span show ?thesis by fastforce
qed

lemma space_not_brace: "is_space c \<Longrightarrow> c \<noteq> CHR ''{''"
  by (auto simp: is_space_def)

lemma brace_not_space: "\<not> is_space (CHR ''{'')" "\<not> is_space (CHR ''}'')"
  by (simp_all add: is_space_def)

text \<open>
  A piece of the splitter is either text in which no span starts, or a span; \<open>b\<close> is what
  follows the piece on its line.
\<close>

definition text_piece :: "string \<Rightarrow> string \<Rightarrow> bool" where
  "text_piece p b = (\<forall>q < length p. \<not> matches_at rx_twig_span (drop q p @ b))"

definition span_piece :: "string \<Rightarrow> string \<Rightarrow> bool" where
  "span_piece p b = (\<exists>m. match_here rx_twig_span 0 (p @ b) = Some m \<and> m_len m = length p)"

lemma drop_take_rejoin: "q' \<le> q \<Longrightarrow> drop q' (take q xs) @ drop q xs = drop q' xs"
proof -
  assume "q' \<le> q"
  then have "drop q' xs = drop q' (take q xs @ drop q xs)" by simp
  also have "\<dots> = drop q' (take q xs) @ drop (q' - length (take q xs)) (drop q xs)"
    by (rule drop_append)
  also have "drop (q' - length (take q xs)) (drop q xs) = drop q xs"
    using \<open>q' \<le> q\<close> by (cases "q \<le> length xs") simp_all
  finally show ?thesis by simp
qed

lemma split_loop_pieces:
  "p \<in> set (split_loop line i) \<Longrightarrow>
     \<exists>a b. line = a @ p @ b \<and> (text_piece p b \<or> span_piece p b)"
proof (induction line i rule: split_loop.induct)
  case (1 line lastIndex)
  let ?s = "drop lastIndex line"
  show ?case
  proof (cases "exec_from rx_twig_span lastIndex ?s")
    case None
    with "1.prems" have p: "p = ?s" and "lastIndex < length line"
      by (subst (asm) split_loop.simps, simp split: if_splits)+
    from None have "\<forall>q \<le> length ?s. \<not> matches_at rx_twig_span (drop q ?s)"
      by (simp add: exec_from_None)
    then have "text_piece p []" by (simp add: text_piece_def p)
    moreover have "line = take lastIndex line @ p @ []" by (simp add: p)
    ultimately show ?thesis by blast
  next
    case (Some m)
    from exec_from_Some [OF Some] obtain q where
      q: "q \<le> length ?s" "\<forall>q' < q. \<not> matches_at rx_twig_span (drop q' ?s)"
        "match_here rx_twig_span (lastIndex + q) (drop q ?s) = Some m"
      by blast
    from match_here_bound [OF q(3)] have mi: "m_index m = lastIndex + q"
      and ml: "m_len m \<le> length (drop q ?s)" by simp_all
    from "1.prems" Some consider
      "m_index m > lastIndex" "p = take (m_index m - lastIndex) ?s"
      | "p = matched m line"
      | "p \<in> set (split_loop line (m_index m + m_len m))"
      by (subst (asm) split_loop.simps) (auto split: if_splits)
    then show ?thesis
    proof cases
      case 1
      then have p: "p = take q ?s" by (simp add: mi)
      have "text_piece p (drop q ?s)"
        unfolding text_piece_def
      proof (intro allI impI)
        fix q' assume "q' < length p"
        then have "q' < q" by (simp add: p)
        then have "drop q' p @ drop q ?s = drop q' ?s"
          unfolding p by (intro drop_take_rejoin) simp
        with q(2) \<open>q' < q\<close> show "\<not> matches_at rx_twig_span (drop q' p @ drop q ?s)" by simp
      qed
      moreover have "line = take lastIndex line @ p @ drop q ?s"
        unfolding p by (simp only: append_take_drop_id)
      ultimately show ?thesis by blast
    next
      case 2
      let ?t = "drop q ?s"
      from 2 have p: "p = take (m_len m) ?t" by (simp add: matched_def mi add.commute)
      from ml have lp: "length p = m_len m" by (simp add: p)
      have e: "p @ drop (m_len m) ?t = ?t" unfolding p by (simp only: append_take_drop_id)
      from q(3) have "match_here rx_twig_span 0 ?t = Some (m\<lparr>m_index := 0\<rparr>)"
        using match_here_index [of rx_twig_span 0 ?t "lastIndex + q"] by simp
      with e lp have "span_piece p (drop (m_len m) ?t)"
        unfolding span_piece_def by (intro exI [of _ "m\<lparr>m_index := 0\<rparr>"]) simp
      moreover have "line = take (lastIndex + q) line @ p @ drop (m_len m) ?t"
      proof -
        have t: "?t = drop (lastIndex + q) line" by (simp add: add.commute)
        have "line = take (lastIndex + q) line @ ?t"
          unfolding t by (simp only: append_take_drop_id)
        then show ?thesis by (simp only: e)
      qed
      ultimately show ?thesis by blast
    next
      case 3
      from "1.IH" [OF Some 3] show ?thesis .
    qed
  qed
qed

lemma not_matches_Nil: "\<not> matches_at rx_twig_span []"
  using twig_span_first [of "[]"] by auto

lemma not_matches_space:
  "is_space c \<Longrightarrow> \<not> matches_at rx_twig_span (c # s)"
  using twig_span_first [of "c # s"] space_not_brace [of c] by auto

lemma resplit_text:
  assumes "text_piece p b" "trim p \<noteq> []" "\<forall>c \<in> set ws. is_space c"
  shows "map trim (splitTwigLine (ws @ trim p)) = [trim p]"
proof -
  from trim_decompose [of p] obtain u v where
    d: "p = u @ trim p @ v" "\<forall>c \<in> set u. is_space c" "\<forall>c \<in> set v. is_space c" by blast
  let ?p = "trim p"
  let ?L = "ws @ ?p"
  have none: "\<not> matches_at rx_twig_span (drop q ?L)" if "q \<le> length ?L" for q
  proof (cases "q < length ws")
    case True
    then have "drop q ?L = ws ! q # (drop (Suc q) ws @ ?p)"
      by (simp add: Cons_nth_drop_Suc)
    moreover from True assms(3) have "is_space (ws ! q)" by simp
    ultimately show ?thesis by (simp add: not_matches_space)
  next
    case False
    define q' where "q' = q - length ws"
    from False have dl: "drop q ?L = drop q' ?p" by (simp add: q'_def)
    show ?thesis
    proof (cases "q' < length ?p")
      case False
      then have "drop q' ?p = []" by simp
      with dl show ?thesis by (simp add: not_matches_Nil)
    next
      case True
      show ?thesis
      proof
        assume "matches_at rx_twig_span (drop q ?L)"
        with dl have "matches_at rx_twig_span (drop q' ?p)" by simp
        from matches_at_extend [OF eol_free_twig_span this, of "v @ b"]
        have m: "matches_at rx_twig_span (drop q' ?p @ v @ b)" .
        have "drop (length u + q') p = drop (length u + q') (u @ ?p @ v)"
          using d(1) by simp
        also have "\<dots> = drop q' ?p @ v" using True by simp
        finally have e: "drop (length u + q') p @ b = drop q' ?p @ v @ b" by simp
        have "length p = length u + length ?p + length v"
          using d(1) by (metis length_append add.assoc)
        with True have "length u + q' < length p" by simp
        with assms(1) have "\<not> matches_at rx_twig_span (drop (length u + q') p @ b)"
          by (simp add: text_piece_def)
        with m e show False by simp
      qed
    qed
  qed
  then have "exec_from rx_twig_span 0 (drop 0 ?L) = None"
    by (simp add: exec_from_None)
  then have "split_loop ?L 0 = [?L]"
    using assms(2) by (subst split_loop.simps) simp
  moreover have "trim ?L = ?p"
    using trim_ws_append [OF assms(3), of ?p] by (simp add: trim_idem)
  ultimately show ?thesis using assms(2) by (simp add: splitTwigLine_def)
qed

lemma resplit_span:
  assumes "span_piece p b" "\<forall>c \<in> set ws. is_space c"
  shows "trim p = p" and "map trim (splitTwigLine (ws @ p)) = [p]"
proof -
  from assms(1) obtain m where m: "match_here rx_twig_span 0 (p @ b) = Some m"
    "m_len m = length p"
    by (auto simp: span_piece_def)
  from match_here_prefix [OF eol_free_twig_span m] have mp: "match_here rx_twig_span 0 p = Some m" .
  from match_here_accepts [OF mp] m(2) have "accepts rx_twig_span p" by auto
  from accepts_twig_span [OF this] obtain mid where p: "p = CHR ''{'' # mid @ [CHR ''}'']"
    by blast
  then show tp: "trim p = p"
    by (intro trim_fixed) (simp_all add: brace_not_space)
  let ?L = "ws @ p"
  let ?n = "length ws"
  from mp have ma: "matches_at rx_twig_span p" by (simp add: matches_at_def)
  have before: "\<forall>q' < ?n. \<not> matches_at rx_twig_span (drop q' ?L)"
  proof (intro allI impI)
    fix q' assume q: "q' < ?n"
    then have "drop q' ?L = ws ! q' # (drop (Suc q') ws @ p)"
      by (simp add: Cons_nth_drop_Suc)
    moreover from q assms(2) have "is_space (ws ! q')" by simp
    ultimately show "\<not> matches_at rx_twig_span (drop q' ?L)"
      by (simp add: not_matches_space)
  qed
  have "exec_from rx_twig_span 0 ?L = exec_from rx_twig_span (0 + ?n) (drop ?n ?L)"
    by (rule exec_from_first) (use before in simp_all)
  also have "\<dots> = match_here rx_twig_span ?n p"
    using ma by (simp add: exec_from_here)
  also have "\<dots> = Some (m\<lparr>m_index := ?n\<rparr>)"
    using match_here_index [of rx_twig_span ?n p 0] mp by simp
  finally have e: "exec_from rx_twig_span 0 (drop 0 ?L) = Some (m\<lparr>m_index := ?n\<rparr>)" by simp
  have "exec_from rx_twig_span (?n + length p) (drop (?n + length p) ?L) = None"
    by (simp add: match_here_None not_matches_Nil)
  then have rest: "split_loop ?L (?n + length p) = []"
    by (subst split_loop.simps) simp
  have "split_loop ?L 0 = (if ?n > 0 then [ws] else []) @ [p]"
    using e rest m(2) by (subst split_loop.simps) (simp add: matched_def)
  moreover have "trim ws = []" using assms(2) by (simp add: trim_empty)
  moreover have "p \<noteq> []" using p by simp
  ultimately show "map trim (splitTwigLine (ws @ p)) = [p]"
    using tp by (simp add: splitTwigLine_def)
qed

lemma resplit:
  assumes "run \<in> set (splitTwigLine line)" "\<forall>c \<in> set ws. is_space c"
  shows "map trim (splitTwigLine (ws @ trim run)) = [trim run]"
proof -
  from assms(1) have a: "run \<in> set (split_loop line 0)" and b: "trim run \<noteq> []"
    by (simp_all add: splitTwigLine_def)
  from split_loop_pieces [OF a] obtain c d where
    "line = c @ run @ d" "text_piece run d \<or> span_piece run d" by blast
  then show ?thesis
    using resplit_text [OF _ b assms(2)] resplit_span [OF _ assms(2)] by metis
qed

subsection \<open>Lines without quotes\<close>

lemma accepts_attr_start: "accepts rx_attr_start p \<Longrightarrow> \<exists>c \<in> set p. is_quote c"
  by (auto simp: rx_attr_start_def)

lemma accepts_attr_single: "accepts rx_attr_single p \<Longrightarrow> \<exists>c \<in> set p. is_quote c"
  by (auto simp: rx_attr_single_def)

lemma exec_needs_quote:
  assumes "\<And>p. accepts r p \<Longrightarrow> \<exists>c \<in> set p. is_quote c"
    and "\<forall>c \<in> set s. \<not> is_quote c"
  shows "exec r s = None"
proof -
  have "\<not> matches_at r (drop q s)" for q
  proof
    assume "matches_at r (drop q s)"
    then obtain m where "match_here r 0 (drop q s) = Some m"
      by (auto simp: matches_at_def)
    from match_here_accepts [OF this] obtain p s' where
      d: "drop q s = p @ s'" and "accepts r p" by blast
    from assms(1) [OF this(2)] obtain c where c: "c \<in> set p" "is_quote c" by blast
    from c(1) have "c \<in> set (drop q s)" by (simp add: d)
    then have "c \<in> set s" by (rule in_set_dropD)
    with assms(2) c(2) show False by blast
  qed
  then show ?thesis by (simp add: exec_def exec_from_None)
qed

lemma no_attr_start: "\<forall>c \<in> set s. \<not> is_quote c \<Longrightarrow> exec rx_attr_start s = None"
  by (rule exec_needs_quote [OF accepts_attr_start])

lemma no_attr_single: "\<forall>c \<in> set s. \<not> is_quote c \<Longrightarrow> \<not> test rx_attr_single s"
  by (simp add: test_def exec_needs_quote [OF accepts_attr_single])

subsection \<open>Indentation\<close>

lemma indentation_blank: "c \<in> set (indentation cfg n) \<Longrightarrow> c = CHR '' '' \<or> c = TAB"
  by (auto simp: indentation_def indentChar_def split: if_splits)

lemma blank_space: "c = CHR '' '' \<or> c = TAB \<Longrightarrow> is_space c \<and> \<not> is_quote c \<and> c \<noteq> NL"
  by (auto simp: is_space_def is_quote_def TAB_def NL_def)

lemma trim_indentation: "trim (indentation cfg n @ s) = trim s"
  by (rule trim_ws_append) (auto dest!: indentation_blank simp: blank_space)

lemma dropWhile_keeps: "x \<noteq> [] \<Longrightarrow> \<not> P (hd x) \<Longrightarrow> \<exists>a'. dropWhile P (a @ x) = a' @ x"
proof (induction a)
  case Nil
  then have "dropWhile P x = x" by (cases x) simp_all
  then show ?case by (intro exI [of _ "[]"]) simp
next
  case (Cons c a)
  then obtain a' where a: "dropWhile P (a @ x) = a' @ x" by blast
  show ?case
  proof (cases "P c")
    case True
    with a show ?thesis by (intro exI [of _ a']) simp
  next
    case False
    then show ?thesis by (intro exI [of _ "c # a"]) simp
  qed
qed

lemma trim_infix:
  assumes "x \<noteq> []" "\<not> is_space (hd x)" "\<not> is_space (last x)"
  shows "\<exists>a' b'. trim (a @ x @ b) = a' @ x @ b'"
proof -
  from assms(1) have n: "x @ b \<noteq> []" by simp
  from assms(1,2) have "\<not> is_space (hd (x @ b))" by simp
  with n dropWhile_keeps [of "x @ b" is_space a] obtain a' where
    a: "dropWhile is_space (a @ x @ b) = a' @ x @ b" by auto
  from assms(1) have n': "rev x @ rev a' \<noteq> []" by simp
  from assms(1,3) have "\<not> is_space (hd (rev x @ rev a'))" by (simp add: hd_rev)
  with n' dropWhile_keeps [of "rev x @ rev a'" is_space "rev b"] obtain b' where
    b: "dropWhile is_space (rev b @ rev x @ rev a') = b' @ rev x @ rev a'" by auto
  have "trim (a @ x @ b) = rev (dropWhile is_space (rev b @ rev x @ rev a'))"
    by (simp add: trim_def a)
  also have "\<dots> = a' @ x @ rev b'" by (simp add: b)
  finally show ?thesis by blast
qed

lemma trim_run_infix:
  assumes "l = a @ r @ b" "trim r \<noteq> []"
  shows "\<exists>a' b'. trim l = a' @ trim r @ b'"
proof -
  from trim_decompose [of r] obtain u v where r: "r = u @ trim r @ v" by blast
  from trim_ends [OF assms(2)] have e: "\<not> is_space (hd (trim r))" "\<not> is_space (last (trim r))"
    by simp_all
  have "l = (a @ u) @ trim r @ (v @ b)"
    using assms(1) r by (metis append.assoc)
  with trim_infix [OF assms(2) e, of "a @ u" "v @ b"] show ?thesis by simp
qed

lemma trim_subset: "set (trim s) \<subseteq> set s"
proof -
  from trim_decompose [of s] obtain u v where "s = u @ trim s @ v" by blast
  then have "set s = set u \<union> set (trim s) \<union> set v" by (metis set_append Un_assoc)
  then show ?thesis by blast
qed

subsection \<open>A run on a line of its own\<close>

lemma format_item_trim: "trim x = trim r \<Longrightarrow> format_item cfg st x = format_item cfg st r"
  by (simp add: format_item_def)

lemma format_items_single: "format_items cfg st [x] = format_item cfg st x"
  by (simp split: sum.splits)

text \<open>
  A line that no rule before the last takes in a state where no mode is on: it has no
  comment opener, no verbatim tag and no script or style tag.
\<close>

definition ordinary :: "string \<Rightarrow> bool" where
  "ordinary t =
     (\<not> includes_str ''{#'' t \<and> \<not> test rx_verbatim t \<and> \<not> test rx_script_open t
      \<and> \<not> test rx_script_close t \<and> \<not> test rx_style_open t \<and> \<not> test rx_style_close t)"

definition quiet :: "fstate \<Rightarrow> bool" where
  "quiet st =
     (\<not> insideTwigAttribute st \<and> \<not> inComment st \<and> \<not> inVerbatim st \<and> \<not> inScriptTag st
      \<and> \<not> inStyleTag st)"

lemma eol_free_tags:
  "eol_free rx_verbatim" "eol_free rx_script_open" "eol_free rx_script_close"
  "eol_free rx_style_open" "eol_free rx_style_close"
  by (simp_all add: rx_verbatim_def rx_script_open_def rx_script_close_def rx_style_open_def
      rx_style_close_def)

lemma ordinary_infix: "ordinary (a @ t @ b) \<Longrightarrow> ordinary t"
  unfolding ordinary_def
  using includes_infix [of "''{#''" t a b] test_infix [OF eol_free_tags(1), of t a b]
    test_infix [OF eol_free_tags(2), of t a b] test_infix [OF eol_free_tags(3), of t a b]
    test_infix [OF eol_free_tags(4), of t a b] test_infix [OF eol_free_tags(5), of t a b]
  by blast

lemma rule_Normal_iff:
  assumes "\<forall>c \<in> set l. \<not> is_quote c"
  shows "rule_of st l = Normal \<longleftrightarrow> quiet st \<and> trim l \<noteq> [] \<and> ordinary (trim l)"
proof -
  have "reaches_content st l \<longleftrightarrow> \<not> insideTwigAttribute st \<and> trim l \<noteq> []"
    using no_attr_start [OF assms] no_attr_single [OF assms]
    by (simp add: reaches_content_def)
  then show ?thesis
    unfolding rule_Normal reaches_tags_def quiet_def ordinary_def isScriptOpening_def
      isScriptClosing_def isStyleOpening_def isStyleClosing_def
    by blast
qed

lemma run_subset:
  assumes "r \<in> set (splitTwigLine l)"
  shows "set (trim r) \<subseteq> set l"
proof -
  from assms have "r \<in> set (split_loop l 0)" by (simp add: splitTwigLine_def)
  from split_loop_pieces [OF this] obtain c d where "l = c @ r @ d" by blast
  then have "set l = set c \<union> set r \<union> set d" by (metis set_append Un_assoc)
  with trim_subset [of r] show ?thesis by blast
qed

lemma run_line:
  assumes "r \<in> set (splitTwigLine l)" "\<forall>c \<in> set l. \<not> is_quote c" "ordinary (trim l)"
    "quiet st"
  shows "format_line cfg st (indentation cfg n @ trim r) = format_item cfg st r"
proof -
  let ?L = "indentation cfg n @ trim r"
  from assms(1) have a: "r \<in> set (split_loop l 0)" and b: "trim r \<noteq> []"
    by (simp_all add: splitTwigLine_def)
  from split_loop_pieces [OF a] obtain c d where l: "l = c @ r @ d" by blast
  from trim_run_infix [OF l b] obtain a' b' where "trim l = a' @ trim r @ b'" by blast
  with assms(3) have o: "ordinary (trim r)" using ordinary_infix by metis
  have t: "trim ?L = trim r" by (simp add: trim_indentation trim_idem)
  have q: "\<forall>c \<in> set ?L. \<not> is_quote c"
    using assms(2) run_subset [OF assms(1)]
    by (auto dest!: indentation_blank simp: blank_space)
  have "rule_of st ?L = Normal"
    using t b o assms(4) by (simp add: rule_Normal_iff [OF q])
  then have f: "format_line cfg st ?L = format_items cfg st (splitTwigLine ?L)"
    by (rule format_line_Normal)
  have "\<forall>c \<in> set (indentation cfg n). is_space c"
    by (auto dest!: indentation_blank simp: blank_space)
  from resplit [OF assms(1) this] obtain x where "splitTwigLine ?L = [x]" "trim x = trim r"
    by (auto simp: map_eq_Cons_conv)
  with f have "format_line cfg st ?L = format_item cfg st x"
    by (simp only: format_items_single)
  with format_item_trim [of x r cfg st] \<open>trim x = trim r\<close> show ?thesis by simp
qed

lemma push_line_indent:
  "push_line cfg txt st = Inr st' \<Longrightarrow>
     \<exists>n. st' = st\<lparr>formattedLines := formattedLines st @ [indentation cfg n @ txt]\<rparr>"
  by (auto simp: push_line_def repeat_def indentation_def split: if_splits)

lemma format_item_emits:
  assumes "format_item cfg st run = Inr st'"
  shows "\<exists>n. formattedLines st' = formattedLines st @ [indentation cfg n @ trim run]"
proof (cases "isTwigInsideAttribute (trim run)")
  case True
  with assms have "push_line cfg (trim run) st = Inr st'"
    by (simp add: format_item_def Let_def)
  from push_line_indent [OF this] show ?thesis by auto
next
  case False
  with assms obtain st2 st3 where
    st2: "st2 = (let st1 = (if shouldDecreaseHtmlIndent (trim run)
                 (isHtmlOpeningTag (trim run) \<and> isHtmlClosingTag (trim run))
               then st\<lparr>htmlIndentLevel := max 0 (htmlIndentLevel st - 1)\<rparr> else st)
           in if isClosingTag (trim run)
              then st1\<lparr>twigIndentLevel := max 0 (twigIndentLevel st1 - 1)\<rparr> else st1)"
    and p: "push_line cfg (trim run) st2 = Inr st3"
    and r: "st' = (let st4 = (if isOpeningTag (trim run) \<and> \<not> isSelfClosingTag (trim run)
                                  \<and> \<not> isSingleLineBlock (trim run)
                               then st3\<lparr>twigIndentLevel := twigIndentLevel st3 + 1\<rparr> else st3);
                        st5 = (if isMidBlockTag (trim run)
                               then st4\<lparr>twigIndentLevel := twigIndentLevel st4 + 1\<rparr> else st4)
                    in if shouldIncreaseHtmlIndent (trim run)
                          (isHtmlOpeningTag (trim run) \<and> isHtmlClosingTag (trim run))
                       then st5\<lparr>htmlIndentLevel := htmlIndentLevel st5 + 1\<rparr> else st5)"
    by (auto simp: format_item_def Let_def split: sum.splits)
  from push_line_indent [OF p] obtain n
    where st3: "st3 = st2\<lparr>formattedLines := formattedLines st2 @ [indentation cfg n @ trim run]\<rparr>"
    by blast
  have "formattedLines st' = formattedLines st @ [indentation cfg n @ trim run]"
    unfolding r st3 st2 Let_def
    by (simp add: if_distrib [of formattedLines])
  then show ?thesis by blast
qed

lemma format_item_quiet: "format_item cfg st run = Inr st' \<Longrightarrow> quiet st' = quiet st"
  by (drule format_item_flags) (simp add: quiet_def)

lemma items_again:
  assumes "set runs \<subseteq> set (splitTwigLine l)" "\<forall>c \<in> set l. \<not> is_quote c \<and> c \<noteq> NL"
    "ordinary (trim l)" "quiet st" "format_items cfg st runs = Inr st'"
  shows "\<exists>new. formattedLines st' = formattedLines st @ new
     \<and> format_lines cfg st new = Inr st'
     \<and> (\<forall>L \<in> set new. \<forall>c \<in> set L. \<not> is_quote c \<and> c \<noteq> NL)"
  using assms(1,4,5)
proof (induction runs arbitrary: st)
  case Nil
  then show ?case by (intro exI [of _ "[]"]) simp
next
  case (Cons r rs)
  from Cons.prems(3) obtain s1 where a: "format_item cfg st r = Inr s1"
    and b: "format_items cfg s1 rs = Inr st'"
    by (auto split: sum.splits)
  from Cons.prems(1) have r: "r \<in> set (splitTwigLine l)" and rs: "set rs \<subseteq> set (splitTwigLine l)"
    by simp_all
  from format_item_emits [OF a] obtain n where
    e: "formattedLines s1 = formattedLines st @ [indentation cfg n @ trim r]" by blast
  from format_item_quiet [OF a] Cons.prems(2) have q: "quiet s1" by simp
  from Cons.IH [OF rs q b] obtain new where
    n: "formattedLines st' = formattedLines s1 @ new" "format_lines cfg s1 new = Inr st'"
      "\<forall>L \<in> set new. \<forall>c \<in> set L. \<not> is_quote c \<and> c \<noteq> NL" by blast
  from assms(2) have nq: "\<forall>c \<in> set l. \<not> is_quote c" by simp
  have "format_line cfg st (indentation cfg n @ trim r) = Inr s1"
    using run_line [OF r nq assms(3) Cons.prems(2)] a by simp
  moreover have "\<forall>c \<in> set (indentation cfg n @ trim r). \<not> is_quote c \<and> c \<noteq> NL"
    using assms(2) run_subset [OF r]
    by (auto dest!: indentation_blank simp: blank_space)
  ultimately show ?case
    using n e by (intro exI [of _ "(indentation cfg n @ trim r) # new"]) simp
qed

lemma rule_of_trim:
  assumes "\<forall>c \<in> set l. \<not> is_quote c" "\<forall>c \<in> set L. \<not> is_quote c" "trim L = trim l"
  shows "rule_of st L = rule_of st l"
  using assms(3) no_attr_start [OF assms(1)] no_attr_single [OF assms(1)]
    no_attr_start [OF assms(2)] no_attr_single [OF assms(2)]
  by (simp add: rule_of_def Let_def)

lemma same_trim:
  assumes "\<forall>c \<in> set l. \<not> is_quote c" "\<forall>c \<in> set L. \<not> is_quote c" "trim L = trim l"
    "\<not> insideTwigAttribute st" "rule_of st l \<noteq> Normal"
  shows "format_line cfg st L = format_line cfg st l"
proof -
  note r = rule_of_trim [OF assms(1,2,3), of st]
  show ?thesis
  proof (cases "rule_of st l")
    case AttributeContinue
    with assms(4) show ?thesis by (simp add: rule_AttributeContinue)
  next
    case AttributeStart
    with no_attr_start [OF assms(1)] show ?thesis by (simp add: rule_AttributeStart)
  next
    case AttributeSingle
    with no_attr_single [OF assms(1)] show ?thesis by (simp add: rule_AttributeSingle)
  next
    case Blank
    with r have "rule_of st L = Blank" by simp
    from format_line_Blank [OF this] format_line_Blank [OF Blank] show ?thesis by simp
  next
    case Comment
    with r have "rule_of st L = Comment" by simp
    from format_line_Comment [OF this] format_line_Comment [OF Comment] assms(3)
    show ?thesis by simp
  next
    case Verbatim
    with r have "rule_of st L = Verbatim" by simp
    from format_line_Verbatim [OF this] format_line_Verbatim [OF Verbatim] assms(3)
    show ?thesis by simp
  next
    case ScriptOpen
    with r have "rule_of st L = ScriptOpen" by simp
    from format_line_ScriptOpen [OF this] format_line_ScriptOpen [OF ScriptOpen] assms(3)
    show ?thesis by simp
  next
    case StyleOpen
    with r have "rule_of st L = StyleOpen" by simp
    from format_line_StyleOpen [OF this] format_line_StyleOpen [OF StyleOpen] assms(3)
    show ?thesis by simp
  next
    case ScriptClose
    with r have "rule_of st L = ScriptClose" by simp
    from format_line_ScriptClose [OF this] format_line_ScriptClose [OF ScriptClose] assms(3)
    show ?thesis by simp
  next
    case StyleClose
    with r have "rule_of st L = StyleClose" by simp
    from format_line_StyleClose [OF this] format_line_StyleClose [OF StyleClose] assms(3)
    show ?thesis by simp
  next
    case ScriptBody
    with r have "rule_of st L = ScriptBody" by simp
    from format_line_ScriptBody [OF this] format_line_ScriptBody [OF ScriptBody] assms(3)
    show ?thesis by simp
  next
    case Normal
    with assms(5) show ?thesis by simp
  qed
qed

subsection \<open>Formatting the lines that a line has produced\<close>

lemma line_emits:
  assumes "format_line cfg st l = Inr st'"
    and "rule_of st l \<notin> {AttributeContinue, AttributeStart, AttributeSingle, Blank, Normal}"
  shows "\<exists>n. formattedLines st' = formattedLines st @ [indentation cfg n @ trim l]"
proof (cases "rule_of st l")
  case Comment
  from assms(1) show ?thesis
    by (auto simp: format_line_Comment [OF Comment] comment_line_def
        split: sum.splits if_splits dest!: push_line_indent)
next
  case Verbatim
  from assms(1) show ?thesis
    by (auto simp: format_line_Verbatim [OF Verbatim] verbatim_line_def
        split: sum.splits if_splits dest!: push_line_indent)
next
  case ScriptOpen
  from assms(1) show ?thesis
    by (auto simp: format_line_ScriptOpen [OF ScriptOpen] script_opening_def
        split: sum.splits dest!: push_line_indent)
next
  case StyleOpen
  from assms(1) show ?thesis
    by (auto simp: format_line_StyleOpen [OF StyleOpen] style_opening_def
        split: sum.splits dest!: push_line_indent)
next
  case ScriptClose
  from assms(1) show ?thesis
    by (auto simp: format_line_ScriptClose [OF ScriptClose] script_closing_def
        dest!: push_line_indent)
next
  case StyleClose
  from assms(1) show ?thesis
    by (auto simp: format_line_StyleClose [OF StyleClose] style_closing_def
        dest!: push_line_indent)
next
  case ScriptBody
  from assms(1) show ?thesis
    by (auto simp: format_line_ScriptBody [OF ScriptBody] script_body_def Let_def
        split: sum.splits if_splits dest!: push_line_indent)
qed (use assms(2) in simp_all)

lemma rule_of_Nil: "\<not> insideTwigAttribute st \<Longrightarrow> rule_of st [] = Blank"
  by (simp add: rule_Blank no_attr_start no_attr_single trim_Nil)

lemma line_again:
  assumes "\<not> insideTwigAttribute st" "\<forall>c \<in> set l. \<not> is_quote c \<and> c \<noteq> NL"
    "format_line cfg st l = Inr st'"
  shows "\<exists>new. formattedLines st' = formattedLines st @ new
     \<and> format_lines cfg st new = Inr st'
     \<and> (\<forall>L \<in> set new. \<forall>c \<in> set L. \<not> is_quote c \<and> c \<noteq> NL)"
proof -
  from assms(2) have nq: "\<forall>c \<in> set l. \<not> is_quote c" by simp
  consider (attribute) "rule_of st l \<in> {AttributeContinue, AttributeStart, AttributeSingle}"
    | (blank) "rule_of st l = Blank" | (normal) "rule_of st l = Normal"
    | (other) "rule_of st l \<notin> {AttributeContinue, AttributeStart, AttributeSingle, Blank, Normal}"
    by blast
  then show ?thesis
  proof cases
    case attribute
    with assms(1) no_attr_start [OF nq] no_attr_single [OF nq] show ?thesis
      by (auto simp: rule_AttributeContinue rule_AttributeStart rule_AttributeSingle)
  next
    case blank
    show ?thesis
    proof (cases "preserveNewLines cfg")
      case True
      with assms(3) have s: "st' = st\<lparr>formattedLines := formattedLines st @ [[]]\<rparr>"
        by (simp add: format_line_Blank [OF blank])
      have "format_line cfg st [] = Inr st'"
        using True by (simp add: format_line_Blank [OF rule_of_Nil [OF assms(1)]] s)
      then show ?thesis
        by (intro exI [of _ "[[]]"]) (simp add: s)
    next
      case False
      with assms(3) have "st' = st"
        by (simp add: format_line_Blank [OF blank])
      then show ?thesis by (intro exI [of _ "[]"]) simp
    qed
  next
    case normal
    then have q: "quiet st" and o: "ordinary (trim l)"
      by (simp_all add: rule_Normal_iff [OF nq])
    from assms(3) have "format_items cfg st (splitTwigLine l) = Inr st'"
      by (simp add: format_line_Normal [OF normal])
    from items_again [OF subset_refl assms(2) o q this] show ?thesis .
  next
    case other
    from line_emits [OF assms(3) other] obtain n where
      e: "formattedLines st' = formattedLines st @ [indentation cfg n @ trim l]" by blast
    let ?L = "indentation cfg n @ trim l"
    have c: "\<forall>c \<in> set ?L. \<not> is_quote c \<and> c \<noteq> NL"
      using assms(2) trim_subset [of l]
      by (auto dest!: indentation_blank simp: blank_space)
    then have q: "\<forall>c \<in> set ?L. \<not> is_quote c" by simp
    have t: "trim ?L = trim l" by (simp add: trim_indentation trim_idem)
    from other have "rule_of st l \<noteq> Normal" by simp
    from same_trim [OF nq q t assms(1) this] assms(3)
    have "format_line cfg st ?L = Inr st'" by simp
    with e c show ?thesis by (intro exI [of _ "[?L]"]) simp
  qed
qed

text \<open>
  A state that formatting its own output lines from the start reaches again, outside a
  multi-line attribute, the output lines having neither quote nor line break.
\<close>

definition settled :: "config \<Rightarrow> fstate \<Rightarrow> bool" where
  "settled cfg st =
     (format_lines cfg initial_state (formattedLines st) = Inr st \<and> depths_ok st
      \<and> \<not> insideTwigAttribute st
      \<and> (\<forall>L \<in> set (formattedLines st). \<forall>c \<in> set L. \<not> is_quote c \<and> c \<noteq> NL))"

lemma settled_initial: "settled cfg initial_state"
  by (simp add: settled_def depths_ok_initial) (simp add: initial_state_def)

lemma settled_line:
  assumes "settled cfg st" "\<forall>c \<in> set l. \<not> is_quote c \<and> c \<noteq> NL"
  shows "\<exists>st'. format_line cfg st l = Inr st' \<and> settled cfg st'"
proof -
  from assms(1) have s: "format_lines cfg initial_state (formattedLines st) = Inr st"
    and d: "depths_ok st" and a: "\<not> insideTwigAttribute st"
    and c: "\<forall>L \<in> set (formattedLines st). \<forall>c \<in> set L. \<not> is_quote c \<and> c \<noteq> NL"
    by (simp_all add: settled_def)
  from format_line_depths [OF d] obtain st' where
    f: "format_line cfg st l = Inr st'" and d': "depths_ok st'" by blast
  from assms(2) have "exec rx_attr_start l = None" by (simp add: no_attr_start)
  from format_line_frame [OF f a this] a have a': "\<not> insideTwigAttribute st'" by simp
  from line_again [OF a assms(2) f] obtain new where
    n: "formattedLines st' = formattedLines st @ new" "format_lines cfg st new = Inr st'"
      "\<forall>L \<in> set new. \<forall>c \<in> set L. \<not> is_quote c \<and> c \<noteq> NL" by blast
  have "format_lines cfg initial_state (formattedLines st') = Inr st'"
    by (simp add: n(1) format_lines_append s n(2))
  moreover have "\<forall>L \<in> set (formattedLines st'). \<forall>c \<in> set L. \<not> is_quote c \<and> c \<noteq> NL"
    using c n(3) by (auto simp: n(1))
  ultimately have "settled cfg st'" using d' a' by (simp add: settled_def)
  with f show ?thesis by blast
qed

lemma settled_lines:
  "settled cfg st \<Longrightarrow> \<forall>l \<in> set ls. \<forall>c \<in> set l. \<not> is_quote c \<and> c \<noteq> NL \<Longrightarrow>
     \<exists>st'. format_lines cfg st ls = Inr st' \<and> settled cfg st'"
proof (induction ls arbitrary: st)
  case Nil
  then show ?case by simp
next
  case (Cons l ls)
  from Cons.prems(2) have "\<forall>c \<in> set l. \<not> is_quote c \<and> c \<noteq> NL" by simp
  from settled_line [OF Cons.prems(1) this] obtain s1 where
    "format_line cfg st l = Inr s1" "settled cfg s1" by blast
  with Cons.IH [of s1] Cons.prems(2) show ?case by simp
qed

subsection \<open>Joining lines and splitting them again\<close>

lemma split_nl_line: "NL \<notin> set l \<Longrightarrow> split_nl l = [l]"
  by (induction l) auto

lemma split_nl_append: "NL \<notin> set l \<Longrightarrow> split_nl (l @ NL # rest) = l # split_nl rest"
  by (induction l) auto

lemma split_nl_join:
  "ls \<noteq> [] \<Longrightarrow> \<forall>l \<in> set ls. NL \<notin> set l \<Longrightarrow> split_nl (join [NL] ls) = ls"
proof (induction ls)
  case Nil
  then show ?case by simp
next
  case (Cons l ls)
  show ?case
  proof (cases ls)
    case Nil
    with Cons.prems show ?thesis by (simp add: split_nl_line)
  next
    case (Cons m ms)
    with Cons.IH Cons.prems have "split_nl (join [NL] (m # ms)) = m # ms" by simp
    with Cons Cons.prems show ?thesis by (simp add: split_nl_append)
  qed
qed

lemma split_nl_chars: "l \<in> set (split_nl t) \<Longrightarrow> set l \<subseteq> set t \<and> NL \<notin> set l"
proof (induction t arbitrary: l)
  case Nil
  then show ?case by simp
next
  case (Cons c cs)
  show ?case
  proof (cases "c = NL")
    case True
    with Cons.prems have "l = [] \<or> l \<in> set (split_nl cs)" by simp
    with Cons.IH show ?thesis by auto
  next
    case False
    show ?thesis
    proof (cases "split_nl cs")
      case Nil
      with False Cons.prems show ?thesis by simp
    next
      case (Cons x xs)
      with False Cons.prems have "l = c # x \<or> l \<in> set xs" by simp
      moreover have "set x \<subseteq> set cs \<and> NL \<notin> set x"
        using Cons.IH [of x] Cons by simp
      moreover have "l \<in> set xs \<Longrightarrow> set l \<subseteq> set cs \<and> NL \<notin> set l"
        using Cons.IH [of l] Cons by simp
      ultimately show ?thesis using False by auto
    qed
  qed
qed

lemma format_Nil: "format cfg [] = Inr []"
proof -
  have "\<not> insideTwigAttribute initial_state" by (simp add: initial_state_def)
  from format_line_Blank [OF rule_of_Nil [OF this], of cfg] show ?thesis
    by (simp add: format_def initial_state_def)
qed

definition attribute_document :: string where
  "attribute_document = ''<div class='' @ [CHR 0x22] @ ''a {{ b }}'' @ [NL] @ ''c'' @ [CHR 0x22] @ [NL]
     @ ''id='' @ [CHR 0x22] @ ''x'' @ [CHR 0x22] @ ''>'' @ [NL] @ ''</div>''"

definition attribute_formatted :: string where
  "attribute_formatted = ''<div class='' @ [CHR 0x22] @ ''a {{ b }} c'' @ [CHR 0x22] @ [NL]
     @ ''id='' @ [CHR 0x22] @ ''x'' @ [CHR 0x22] @ ''>'' @ [NL] @ ''</div>''"

definition attribute_formatted_twice :: string where
  "attribute_formatted_twice = ''<div class='' @ [CHR 0x22] @ ''a'' @ [NL] @ ''{{ b }}'' @ [NL] @ ''c'' @ [CHR 0x22]
     @ [NL] @ ''id='' @ [CHR 0x22] @ ''x'' @ [CHR 0x22] @ ''>'' @ [NL] @ ''</div>''"

definition nested_document :: string where
  "nested_document = ''<div>'' @ [NL] @ ''{% for i in items %}'' @ [NL] @ ''<p>{{ i }}</p>''
     @ [NL] @ ''{% endfor %}'' @ [NL] @ ''</div>''"

definition nested_formatted :: string where
  "nested_formatted = ''<div>'' @ [NL] @ ''    {% for i in items %}'' @ [NL]
     @ ''        <p>'' @ [NL] @ ''            {{ i }}'' @ [NL] @ ''        </p>'' @ [NL]
     @ ''    {% endfor %}'' @ [NL] @ ''</div>''"

lemma nested_facts:
  "filter is_quote nested_document = []"
  "format default_config nested_document = Inr nested_formatted"
  by code_simp+

text \<open>
  Claim C1. Formatting is not idempotent on \<open>attribute_document\<close>, a \<open>div\<close> element
  whose \<open>class\<close> attribute holds a Twig expression and spans two lines, followed by a
  second attribute on a line of its own; its tags and its quotes are balanced. The first
  pass joins the two lines of the \<open>class\<close> attribute into one line, as the collapser is
  meant to. The rule that keeps an attribute with a Twig expression on its line looks
  for a \<open>>\<close> after the closing quote, which the joined line does not have, so the
  second pass takes the joined line for a normal line and splits it at the Twig
  expression again: the second pass returns a text that differs from the text of the
  first pass.
\<close>

theorem format_twice_differs:
  "format default_config attribute_document = Inr attribute_formatted
   \<and> format default_config attribute_formatted = Inr attribute_formatted_twice
   \<and> attribute_formatted_twice \<noteq> attribute_formatted"
  by code_simp

text \<open>
  The attribute rules are the only place where a second pass can differ in a document
  without quotes: for every configuration and every document in which no single or
  double quote occurs, \<open>format\<close> returns a text, and formatting that text again under the
  same configuration returns it unchanged.
\<close>

theorem format_twice_without_quotes:
  assumes "\<forall>c \<in> set text. \<not> is_quote c"
  shows "\<exists>u. format cfg text = Inr u \<and> format cfg u = Inr u"
proof -
  have "\<forall>l \<in> set (split_nl text). \<forall>c \<in> set l. \<not> is_quote c \<and> c \<noteq> NL"
    using assms split_nl_chars by blast
  from settled_lines [OF settled_initial this] obtain st where
    r: "format_lines cfg initial_state (split_nl text) = Inr st" and s: "settled cfg st"
    by blast
  let ?u = "join [NL] (formattedLines st)"
  from r have a: "format cfg text = Inr ?u" by (simp add: format_def)
  have "format cfg ?u = Inr ?u"
  proof (cases "formattedLines st = []")
    case True
    then show ?thesis by (simp add: format_Nil)
  next
    case False
    from s have "\<forall>l \<in> set (formattedLines st). NL \<notin> set l"
      by (auto simp: settled_def)
    from split_nl_join [OF False this] s show ?thesis
      by (simp add: format_def settled_def)
  qed
  with a show ?thesis by blast
qed

lemma format_twice_nested_document:
  "filter is_quote nested_document = []
   \<and> format default_config nested_document = Inr nested_formatted
   \<and> format default_config nested_formatted = Inr nested_formatted"
proof -
  from nested_facts(1) have "\<forall>c \<in> set nested_document. \<not> is_quote c"
    by (simp add: filter_empty_conv)
  from format_twice_without_quotes [OF this, of default_config] nested_facts show ?thesis
    by auto
qed


end
